theory Spec2Isabelle
  imports Complex_Main
begin

section \<open>The streaming window analytics engine (package analytics)\<close>

text \<open>
  The embedding follows the Go source of package \<open>analytics\<close> function by function.
  Conventions of the model:
  \<^item> \<open>float64\<close> is modelled by \<open>real\<close>: finite values with exact arithmetic. Rounding,
    infinities and NaN are outside the model.
  \<^item> \<open>time.Time\<close> is an opaque instant, modelled by an integer.
  \<^item> Go's \<open>int\<close> is modelled by \<open>int\<close>; the only integer the code computes with is a
    slice length compared with \<open>maxSize\<close>.
  \<^item> A run-time panic is a value of type \<open>fault\<close>, returned as \<open>Inl\<close>.
  \<^item> A \<open>*MetricWindow\<close> is an address into an explicit heap of windows, so that two
    holders of one pointer see one window.
  \<^item> The heap is unbounded: an allocation that the run-time system admits is served.
    Running out of memory, which can end any Go program at any allocation, is outside
    the model.
  \<^item> A section guarded by a mutex is one atomic step of the sequential model; the
    interleaving of the registry's critical section is modelled separately below.
\<close>

subsection \<open>Faults\<close>

datatype fault =
    MakeSliceCapOutOfRange    \<comment> \<open>\<open>make([]T, 0, n)\<close> with \<open>n\<close> out of range\<close>
  | SendOnClosedChannel       \<comment> \<open>\<open>ch <- v\<close> on a closed channel\<close>
  | CloseOfClosedChannel      \<comment> \<open>\<open>close(ch)\<close> on a closed channel\<close>
  | DivisionByZero            \<comment> \<open>marks a float division whose divisor is zero\<close>

definition fbind :: "fault + 'a \<Rightarrow> ('a \<Rightarrow> fault + 'b) \<Rightarrow> fault + 'b" where
  "fbind m f = (case m of Inl e \<Rightarrow> Inl e | Inr x \<Rightarrow> f x)"

text \<open>
  Go's float division does not panic on a zero divisor (it yields an infinity or NaN).
  The model routes every division of the source through \<open>fdiv\<close>, which reports a zero
  divisor as a fault, so that "no division by zero is reachable" is a statement about
  the model and not hidden by HOL's \<open>x / 0 = 0\<close>.
\<close>

definition fdiv :: "real \<Rightarrow> real \<Rightarrow> fault + real" where
  "fdiv a b = (if b = 0 then Inl DivisionByZero else Inr (a / b))"

subsection \<open>Data model\<close>

type_synonym time = int
type_synonym addr = nat

record MetricWindow =
  cpuValues :: "real list"
  rpsValues :: "real list"
  timestamps :: "time list"
  maxSize :: int

record MetricData =
  DeviceID :: string
  Timestamp :: time
  CPU :: real
  RPS :: real

text \<open>The result's first two fields carry the prefix \<open>r\<close>: the field names
  \<open>DeviceID\<close> and \<open>Timestamp\<close> are taken by \<open>MetricData\<close>.\<close>

record AnalysisResult =
  rDeviceID :: string
  rTimestamp :: time
  RollingAvgCPU :: real
  RollingAvgRPS :: real
  IsAnomaly :: bool
  AnomalyScore :: real
  AnomalyType :: string
  StandardDev :: real

text \<open>A buffered channel: its buffer (head is the oldest element), its capacity and
  whether it has been closed.\<close>

record 'a chan =
  buf :: "'a list"
  cap :: nat
  closed :: bool

definition make_chan :: "nat \<Rightarrow> 'a chan" where
  "make_chan n = \<lparr>buf = [], cap = n, closed = False\<rparr>"

text \<open>\<open>select { case ch <- v: default: }\<close>: a send on a closed channel panics, also
  inside a select; otherwise the value is buffered when there is room and the default
  branch is taken when there is none. The boolean tells whether the value was sent.
  A send that Go hands directly to a waiting receiver is, in the model, this buffered
  send followed by the receiver's step.\<close>

definition try_send :: "'a chan \<Rightarrow> 'a \<Rightarrow> fault + ('a chan \<times> bool)" where
  "try_send ch v =
     (if closed ch then Inl SendOnClosedChannel
      else if length (buf ch) < cap ch then Inr (ch\<lparr>buf := buf ch @ [v]\<rparr>, True)
      else Inr (ch, False))"

definition close_chan :: "'a chan \<Rightarrow> fault + 'a chan" where
  "close_chan ch = (if closed ch then Inl CloseOfClosedChannel else Inr (ch\<lparr>closed := True\<rparr>))"

record Analyzer =
  windows :: "string \<rightharpoonup> addr"
  heap :: "addr \<Rightarrow> MetricWindow"
  fresh :: addr
  windowSize :: int
  anomalyThreshold :: real
  metricsChan :: "MetricData chan"
  resultsChan :: "AnalysisResult chan"
  stopChan :: "unit chan"
  wg :: nat

text \<open>
  \<open>make([]T, 0, n)\<close> is \<open>runtime.makeslice\<close>: it panics with "cap out of range" when the
  capacity is negative and when the size of the backing array, the element size times
  the capacity, overflows or exceeds the run-time constant \<open>maxAlloc\<close>; otherwise it
  gives an empty slice. \<open>maxAlloc\<close> is \<open>2^48\<close> bytes on the 64-bit Linux targets the
  service is built for (\<open>GOOS=linux\<close>, 48 heap address bits). With the capacity an
  unbounded integer, the overflow of the product is the case of a product above
  \<open>maxAlloc\<close>. The element sizes are those of a 64-bit target: 8 bytes for a \<open>float64\<close>,
  24 bytes for a \<open>time.Time\<close> (two words and a pointer).
\<close>

definition maxAlloc :: int where
  "maxAlloc = 2 ^ 48"

definition sizeof_float64 :: int where
  "sizeof_float64 = 8"

definition sizeof_Time :: int where
  "sizeof_Time = 24"

definition make_slice :: "int \<Rightarrow> int \<Rightarrow> fault + 'a list" where
  "make_slice elemSize n =
     (if n < 0 \<or> elemSize * n > maxAlloc then Inl MakeSliceCapOutOfRange else Inr [])"

text \<open>The window sizes for which the three \<open>make\<close> calls of a new window succeed.\<close>

definition window_size_ok :: "int \<Rightarrow> bool" where
  "window_size_ok ws \<longleftrightarrow>
     0 \<le> ws \<and> sizeof_float64 * ws \<le> maxAlloc \<and> sizeof_Time * ws \<le> maxAlloc"

definition NewAnalyzer :: "int \<Rightarrow> real \<Rightarrow> Analyzer" where
  "NewAnalyzer ws th =
     \<lparr>windows = Map.empty,
      heap = (\<lambda>_. \<lparr>cpuValues = [], rpsValues = [], timestamps = [], maxSize = 0\<rparr>),
      fresh = 0,
      windowSize = ws,
      anomalyThreshold = th,
      metricsChan = make_chan 1000,
      resultsChan = make_chan 1000,
      stopChan = make_chan 0,
      wg = 0\<rparr>"

subsection \<open>Rolling statistics\<close>

text \<open>\<open>calculateAverage\<close>: the loop adds the values from left to right to \<open>sum\<close>,
  which starts at 0.\<close>

definition calculateAverage :: "real list \<Rightarrow> fault + real" where
  "calculateAverage values =
     (if length values = 0 then Inr 0
      else fdiv (foldl (\<lambda>sum v. sum + v) 0 values) (real (length values)))"

text \<open>\<open>calculateStdDev\<close>: the loop adds the squared differences from left to right to
  \<open>variance\<close>, which is then divided by the length.\<close>

definition calculateStdDev :: "real list \<Rightarrow> real \<Rightarrow> fault + real" where
  "calculateStdDev values mean =
     (if length values = 0 then Inr 0
      else fbind (fdiv (foldl (\<lambda>variance v. variance + (v - mean) * (v - mean)) 0 values)
                       (real (length values)))
                 (\<lambda>variance. Inr (sqrt variance)))"

subsection \<open>The steps of analyze\<close>

text \<open>The registry lookup and insert at the start of \<open>analyze\<close>, under the registry's
  lock: the window of the device, created empty on the first reading.\<close>

definition getOrCreate :: "Analyzer \<Rightarrow> string \<Rightarrow> fault + (addr \<times> Analyzer)" where
  "getOrCreate a dev =
     (case windows a dev of
        Some window \<Rightarrow> Inr (window, a)
      | None \<Rightarrow>
          fbind (make_slice sizeof_float64 (windowSize a)) (\<lambda>cpus.
          fbind (make_slice sizeof_float64 (windowSize a)) (\<lambda>rpss.
          fbind (make_slice sizeof_Time (windowSize a)) (\<lambda>tss.
            let window = fresh a
            in Inr (window,
                    a\<lparr>heap := (heap a)(window :=
                         \<lparr>cpuValues = cpus, rpsValues = rpss, timestamps = tss,
                          maxSize = windowSize a\<rparr>),
                      fresh := Suc window,
                      windows := (windows a)(dev \<mapsto> window)\<rparr>)))))"

text \<open>The append and the trim of \<open>analyze\<close>, under the window's lock. The three
  slices are trimmed on the length of \<open>cpuValues\<close> alone; each has at least one
  element after the append, so \<open>s[1:]\<close> cannot fail.\<close>

definition window_append :: "MetricWindow \<Rightarrow> MetricData \<Rightarrow> MetricWindow" where
  "window_append w data =
     (let w1 = w\<lparr>cpuValues := cpuValues w @ [CPU data],
                 rpsValues := rpsValues w @ [RPS data],
                 timestamps := timestamps w @ [Timestamp data]\<rparr>
      in if int (length (cpuValues w1)) > maxSize w1
         then w1\<lparr>cpuValues := drop 1 (cpuValues w1),
                 rpsValues := drop 1 (rpsValues w1),
                 timestamps := drop 1 (timestamps w1)\<rparr>
         else w1)"

text \<open>The z-score of a value: \<open>var z float64; if stdDev > 0 { z = (v - avg) / stdDev }\<close>.\<close>

definition zScore :: "real \<Rightarrow> real \<Rightarrow> real \<Rightarrow> fault + real" where
  "zScore v avg stdDev = (if stdDev > 0 then fdiv (v - avg) stdDev else Inr 0)"

text \<open>The classification: the two tests run one after the other on the variables
  \<open>isAnomaly\<close> and \<open>anomalyType\<close>.\<close>

definition classify :: "real \<Rightarrow> real \<Rightarrow> real \<Rightarrow> bool \<times> string" where
  "classify th zCPU zRPS =
     (let isAnomaly = False;
          anomalyType = '''';
          (isAnomaly, anomalyType) =
            (if \<bar>zCPU\<bar> > th
             then (True, if zCPU > 0 then ''CPU_SPIKE'' else ''CPU_DROP'')
             else (isAnomaly, anomalyType));
          (isAnomaly, anomalyType) =
            (if \<bar>zRPS\<bar> > th
             then (True,
                   if anomalyType \<noteq> '''' then ''MULTIPLE_ANOMALY''
                   else if zRPS > 0 then ''RPS_SPIKE''
                   else ''RPS_DROP'')
             else (isAnomaly, anomalyType))
      in (isAnomaly, anomalyType))"

text \<open>The local variables of \<open>analyze\<close> that hold the statistics and the z-scores of
  the reading.\<close>

record scores =
  avgCPU :: real
  avgRPS :: real
  stdDevCPU :: real
  stdDevRPS :: real
  zScoreCPU :: real
  zScoreRPS :: real

text \<open>The statistics and z-scores that \<open>analyze\<close> computes from the window, once the
  reading has been appended to it.\<close>

definition window_scores :: "MetricWindow \<Rightarrow> MetricData \<Rightarrow> fault + scores" where
  "window_scores w data =
     fbind (calculateAverage (cpuValues w)) (\<lambda>avgC.
     fbind (calculateAverage (rpsValues w)) (\<lambda>avgR.
     fbind (calculateStdDev (cpuValues w) avgC) (\<lambda>sdC.
     fbind (calculateStdDev (rpsValues w) avgR) (\<lambda>sdR.
     fbind (zScore (CPU data) avgC sdC) (\<lambda>zC.
     fbind (zScore (RPS data) avgR sdR) (\<lambda>zR.
       Inr \<lparr>avgCPU = avgC, avgRPS = avgR, stdDevCPU = sdC, stdDevRPS = sdR,
            zScoreCPU = zC, zScoreRPS = zR\<rparr>))))))"

definition analyze :: "Analyzer \<Rightarrow> MetricData \<Rightarrow> fault + (AnalysisResult \<times> Analyzer)" where
  "analyze a data =
     fbind (getOrCreate a (DeviceID data)) (\<lambda>(window, a1).
       let w = window_append (heap a1 window) data;
           a2 = a1\<lparr>heap := (heap a1)(window := w)\<rparr>
       in fbind (window_scores w data) (\<lambda>s.
            let maxZScore = max \<bar>zScoreCPU s\<bar> \<bar>zScoreRPS s\<bar>;
                (isAnomaly, anomalyType) =
                  classify (anomalyThreshold a2) (zScoreCPU s) (zScoreRPS s)
            in Inr (\<lparr>rDeviceID = DeviceID data,
                     rTimestamp = Timestamp data,
                     RollingAvgCPU = avgCPU s,
                     RollingAvgRPS = avgRPS s,
                     IsAnomaly = isAnomaly,
                     AnomalyScore = maxZScore,
                     AnomalyType = anomalyType,
                     StandardDev = max (stdDevCPU s) (stdDevRPS s)\<rparr>, a2)))"

subsection \<open>The engine: lifecycle, queues and workers\<close>

text \<open>\<open>Start\<close>: the loop \<open>for i := 0; i < workers; i++\<close> registers and launches one
  worker per iteration; it does not run for \<open>workers \<le> 0\<close>.\<close>

definition Start :: "Analyzer \<Rightarrow> int \<Rightarrow> Analyzer" where
  "Start a workers = a\<lparr>wg := wg a + nat workers\<rparr>"

text \<open>\<open>Stop\<close>: closes the stop channel, waits until every worker has returned
  (\<open>wg.Wait()\<close>, after which the counter is 0), then closes both queues. The model takes
  the whole of \<open>Stop\<close> as one step: what workers still do between the close of the stop
  channel and their return is a worker step before it.\<close>

definition Stop :: "Analyzer \<Rightarrow> fault + Analyzer" where
  "Stop a =
     fbind (close_chan (stopChan a)) (\<lambda>sc.
     fbind (close_chan (metricsChan a)) (\<lambda>mc.
     fbind (close_chan (resultsChan a)) (\<lambda>rc.
       Inr (a\<lparr>stopChan := sc, wg := 0, metricsChan := mc, resultsChan := rc\<rparr>))))"

definition AddMetric :: "Analyzer \<Rightarrow> MetricData \<Rightarrow> fault + Analyzer" where
  "AddMetric a data =
     fbind (try_send (metricsChan a) data) (\<lambda>(ch, sent). Inr (a\<lparr>metricsChan := ch\<rparr>))"

text \<open>A receive \<open><-ch\<close> that is ready: the oldest buffered element, or the zero value
  of the element type once the channel is closed and drained. \<open>None\<close>: the receive
  would block.\<close>

definition recv :: "'a chan \<Rightarrow> 'a \<Rightarrow> ('a \<times> 'a chan) option" where
  "recv ch zero =
     (case buf ch of
        v # rest \<Rightarrow> Some (v, ch\<lparr>buf := rest\<rparr>)
      | [] \<Rightarrow> if closed ch then Some (zero, ch) else None)"

definition zero_MetricData :: MetricData where
  "zero_MetricData = \<lparr>DeviceID = '''', Timestamp = 0, CPU = 0, RPS = 0\<rparr>"

definition zero_AnalysisResult :: AnalysisResult where
  "zero_AnalysisResult =
     \<lparr>rDeviceID = '''', rTimestamp = 0, RollingAvgCPU = 0, RollingAvgRPS = 0,
      IsAnomaly = False, AnomalyScore = 0, AnomalyType = '''', StandardDev = 0\<rparr>"

text \<open>One iteration of the loop of \<open>processMetrics\<close> in which the worker takes the case
  \<open>data := <-a.metricsChan\<close>: it analyses the reading and offers the result to the
  result queue without blocking. With no worker running, or with nothing to receive,
  the step does not happen and the state stays as it is.\<close>

definition worker_process :: "Analyzer \<Rightarrow> fault + Analyzer" where
  "worker_process a =
     (if wg a = 0 then Inr a
      else case recv (metricsChan a) zero_MetricData of
        None \<Rightarrow> Inr a
      | Some (data, mc) \<Rightarrow>
          fbind (analyze (a\<lparr>metricsChan := mc\<rparr>) data) (\<lambda>(result, a1).
          fbind (try_send (resultsChan a1) result) (\<lambda>(rc, sent).
            Inr (a1\<lparr>resultsChan := rc\<rparr>))))"

text \<open>The iteration in which the worker takes the case \<open><-a.stopChan\<close>, ready once the
  stop channel is closed: the worker returns and \<open>wg.Done()\<close> runs.\<close>

definition worker_exit :: "Analyzer \<Rightarrow> Analyzer" where
  "worker_exit a = (if wg a > 0 \<and> closed (stopChan a) then a\<lparr>wg := wg a - 1\<rparr> else a)"

record Stats =
  devices_tracked :: nat
  window_size :: int
  threshold :: real
  queue_size :: nat

definition GetStats :: "Analyzer \<Rightarrow> Stats" where
  "GetStats a =
     \<lparr>devices_tracked = card (dom (windows a)),
      window_size = windowSize a,
      threshold = anomalyThreshold a,
      queue_size = length (buf (metricsChan a))\<rparr>"

text \<open>A consumer of \<open>GetResultsChan()\<close> taking one result, when one is ready.\<close>

definition receive_result :: "Analyzer \<Rightarrow> Analyzer" where
  "receive_result a =
     (case recv (resultsChan a) zero_AnalysisResult of
        None \<Rightarrow> a
      | Some (result, rc) \<Rightarrow> a\<lparr>resultsChan := rc\<rparr>)"

text \<open>The operations on an engine, and a run of a sequence of them that stops at the
  first panic.\<close>

datatype op =
    OpStart int
  | OpStop
  | OpAddMetric MetricData
  | OpGetStats
  | OpWorkerProcess
  | OpWorkerExit
  | OpReceiveResult

fun step :: "op \<Rightarrow> Analyzer \<Rightarrow> fault + Analyzer" where
  "step (OpStart workers) a = Inr (Start a workers)"
| "step OpStop a = Stop a"
| "step (OpAddMetric data) a = AddMetric a data"
| "step OpGetStats a = (let stats = GetStats a in Inr a)"
| "step OpWorkerProcess a = worker_process a"
| "step OpWorkerExit a = Inr (worker_exit a)"
| "step OpReceiveResult a = Inr (receive_result a)"

fun run :: "op list \<Rightarrow> Analyzer \<Rightarrow> fault + Analyzer" where
  "run [] a = Inr a"
| "run (x # xs) a = fbind (step x a) (run xs)"

text \<open>Feeding readings to \<open>analyze\<close> one after the other, collecting the results.\<close>

fun analyze_all :: "Analyzer \<Rightarrow> MetricData list \<Rightarrow> fault + (AnalysisResult list \<times> Analyzer)" where
  "analyze_all a [] = Inr ([], a)"
| "analyze_all a (data # rest) =
     fbind (analyze a data) (\<lambda>(result, a1).
     fbind (analyze_all a1 rest) (\<lambda>(results, a2). Inr (result # results, a2)))"

subsection \<open>The statistics in the specification's words\<close>

text \<open>The arithmetic mean, the population standard deviation around a given mean and
  the z-score as the specification words them, to be compared with what the code
  computes.\<close>

definition spec_mean :: "real list \<Rightarrow> real" where
  "spec_mean xs = (if xs = [] then 0 else sum_list xs / real (length xs))"

definition spec_stddev :: "real list \<Rightarrow> real \<Rightarrow> real" where
  "spec_stddev xs m =
     (if xs = [] then 0 else sqrt (sum_list (map (\<lambda>x. (x - m)\<^sup>2) xs) / real (length xs)))"

definition spec_zscore :: "real \<Rightarrow> real \<Rightarrow> real \<Rightarrow> real" where
  "spec_zscore v avg sd = (if sd > 0 then (v - avg) / sd else 0)"

definition spec_scores :: "MetricWindow \<Rightarrow> MetricData \<Rightarrow> scores" where
  "spec_scores w data =
     (let avgC = spec_mean (cpuValues w);
          avgR = spec_mean (rpsValues w);
          sdC = spec_stddev (cpuValues w) avgC;
          sdR = spec_stddev (rpsValues w) avgR
      in \<lparr>avgCPU = avgC, avgRPS = avgR, stdDevCPU = sdC, stdDevRPS = sdR,
          zScoreCPU = spec_zscore (CPU data) avgC sdC,
          zScoreRPS = spec_zscore (RPS data) avgR sdR\<rparr>)"

text \<open>The result record built from the scores, as the \<open>return\<close> of \<open>analyze\<close> builds it.\<close>

definition result_of :: "real \<Rightarrow> scores \<Rightarrow> MetricData \<Rightarrow> AnalysisResult" where
  "result_of th s data =
     \<lparr>rDeviceID = DeviceID data,
      rTimestamp = Timestamp data,
      RollingAvgCPU = avgCPU s,
      RollingAvgRPS = avgRPS s,
      IsAnomaly = fst (classify th (zScoreCPU s) (zScoreRPS s)),
      AnomalyScore = max \<bar>zScoreCPU s\<bar> \<bar>zScoreRPS s\<bar>,
      AnomalyType = snd (classify th (zScoreCPU s) (zScoreRPS s)),
      StandardDev = max (stdDevCPU s) (stdDevRPS s)\<rparr>"

text \<open>The invariant of the registry and its windows: every registered address has been
  allocated, and every allocated window has the configured capacity, at most that many
  samples, and three sequences of one length.\<close>

definition window_ok :: "int \<Rightarrow> MetricWindow \<Rightarrow> bool" where
  "window_ok ws w \<longleftrightarrow>
     maxSize w = ws \<and> int (length (cpuValues w)) \<le> ws \<and>
     length (rpsValues w) = length (cpuValues w) \<and>
     length (timestamps w) = length (cpuValues w)"

definition registry_ok :: "Analyzer \<Rightarrow> bool" where
  "registry_ok a \<longleftrightarrow>
     (\<forall>dev p. windows a dev = Some p \<longrightarrow> p < fresh a) \<and>
     (\<forall>p < fresh a. window_ok (windowSize a) (heap a p))"




subsection \<open>Concrete engines and readings\<close>

text \<open>A device with four quiet samples in a window of capacity 50, in an engine whose
  threshold is 1, and a reading that is far from them on both signals.\<close>

definition quiet_window :: MetricWindow where
  "quiet_window =
     \<lparr>cpuValues = [0, 0, 0, 0], rpsValues = [0, 0, 0, 0], timestamps = [1, 2, 3, 4],
      maxSize = 50\<rparr>"

definition quiet_engine :: Analyzer where
  "quiet_engine =
     (NewAnalyzer 50 1)\<lparr>windows := [''dev-1'' \<mapsto> 0], heap := (\<lambda>_. quiet_window), fresh := 1\<rparr>"

definition loud_reading :: MetricData where
  "loud_reading = \<lparr>DeviceID = ''dev-1'', Timestamp = 5, CPU = 5, RPS = 5\<rparr>"

text \<open>A first reading with large values.\<close>

definition big_reading :: MetricData where
  "big_reading = \<lparr>DeviceID = ''dev-2'', Timestamp = 1, CPU = 1000000, RPS = 5000000\<rparr>"

text \<open>An engine whose ingestion queue holds as many readings as its capacity.\<close>

definition full_engine :: Analyzer where
  "full_engine =
     (NewAnalyzer 50 2)\<lparr>metricsChan :=
        \<lparr>buf = replicate 1000 big_reading, cap = 1000, closed = False\<rparr>\<rparr>"

text \<open>A window of capacity 2 that is full.\<close>

definition full_window :: MetricWindow where
  "full_window = \<lparr>cpuValues = [1, 2], rpsValues = [3, 4], timestamps = [5, 6], maxSize = 2\<rparr>"

subsection \<open>The registry section of analyze, interleaved\<close>

text \<open>
  Several workers run the start of \<open>analyze\<close> for one device at the same time:
  \<^verbatim>\<open>
  a.mu.Lock()
  window, exists := a.windows[data.DeviceID]
  if !exists {
      window = &MetricWindow{...}
      a.windows[data.DeviceID] = window
  }
  a.mu.Unlock()
  \<close>
  Each worker has a program counter; a step of the system is one statement of one
  worker. \<open>Lock\<close> can be taken only while no worker holds the mutex; no other statement
  looks at the mutex. Memory is sequentially consistent.
\<close>

datatype pc =
    AtLock              \<comment> \<open>before \<open>a.mu.Lock()\<close>\<close>
  | AtLookup            \<comment> \<open>before \<open>window, exists := a.windows[dev]\<close>\<close>
  | AtCreate            \<comment> \<open>\<open>!exists\<close>: before \<open>window = &MetricWindow{...}\<close>\<close>
  | AtInsert addr       \<comment> \<open>before \<open>a.windows[dev] = window\<close>\<close>
  | AtUnlock addr       \<comment> \<open>before \<open>a.mu.Unlock()\<close>, with its \<open>window\<close>\<close>
  | Returned addr       \<comment> \<open>past the section, with its \<open>window\<close>\<close>

record reg_state =
  engine :: Analyzer
  mu :: "nat option"          \<comment> \<open>the worker that holds \<open>a.mu\<close>, if any\<close>
  pcs :: "nat \<Rightarrow> pc"

definition reg_init :: "Analyzer \<Rightarrow> reg_state" where
  "reg_init a = \<lparr>engine = a, mu = None, pcs = (\<lambda>_. AtLock)\<rparr>"

inductive reg_step :: "string \<Rightarrow> reg_state \<Rightarrow> reg_state \<Rightarrow> bool" for dev :: string where
  lock:
    "pcs s t = AtLock \<Longrightarrow> mu s = None \<Longrightarrow>
     reg_step dev s (s\<lparr>mu := Some t, pcs := (pcs s)(t := AtLookup)\<rparr>)"
| lookup_found:
    "pcs s t = AtLookup \<Longrightarrow> windows (engine s) dev = Some p \<Longrightarrow>
     reg_step dev s (s\<lparr>pcs := (pcs s)(t := AtUnlock p)\<rparr>)"
| lookup_missing:
    "pcs s t = AtLookup \<Longrightarrow> windows (engine s) dev = None \<Longrightarrow>
     reg_step dev s (s\<lparr>pcs := (pcs s)(t := AtCreate)\<rparr>)"
| create:
    "pcs s t = AtCreate \<Longrightarrow>
     make_slice sizeof_float64 (windowSize (engine s)) = Inr cpus \<Longrightarrow>
     make_slice sizeof_float64 (windowSize (engine s)) = Inr rpss \<Longrightarrow>
     make_slice sizeof_Time (windowSize (engine s)) = Inr tss \<Longrightarrow>
     reg_step dev s
       (s\<lparr>engine := (engine s)\<lparr>heap := (heap (engine s))(fresh (engine s) :=
                         \<lparr>cpuValues = cpus, rpsValues = rpss, timestamps = tss,
                          maxSize = windowSize (engine s)\<rparr>),
                      fresh := Suc (fresh (engine s))\<rparr>,
          pcs := (pcs s)(t := AtInsert (fresh (engine s)))\<rparr>)"
| insert:
    "pcs s t = AtInsert p \<Longrightarrow>
     reg_step dev s
       (s\<lparr>engine := (engine s)\<lparr>windows := (windows (engine s))(dev \<mapsto> p)\<rparr>,
          pcs := (pcs s)(t := AtUnlock p)\<rparr>)"
| unlock:
    "pcs s t = AtUnlock p \<Longrightarrow>
     reg_step dev s (s\<lparr>mu := None, pcs := (pcs s)(t := Returned p)\<rparr>)"

text \<open>The statements between \<open>Lock\<close> and \<open>Unlock\<close>.\<close>

fun in_section :: "pc \<Rightarrow> bool" where
  "in_section AtLock = False"
| "in_section AtLookup = True"
| "in_section AtCreate = True"
| "in_section (AtInsert p) = True"
| "in_section (AtUnlock p) = True"
| "in_section (Returned p) = False"

text \<open>The invariant of the interleaved section, for a device that had no window when
  the address counter was \<open>f0\<close>. What a worker at a given statement can rely on: inside
  the section it holds the mutex, and the registry and the counter are as its own
  statements left them.\<close>

fun pc_ok :: "string \<Rightarrow> addr \<Rightarrow> Analyzer \<Rightarrow> nat option \<Rightarrow> nat \<Rightarrow> pc \<Rightarrow> bool" where
  "pc_ok dev f0 e m t AtLock = True"
| "pc_ok dev f0 e m t AtLookup = (m = Some t)"
| "pc_ok dev f0 e m t AtCreate = (m = Some t \<and> windows e dev = None \<and> fresh e = f0)"
| "pc_ok dev f0 e m t (AtInsert p) =
     (m = Some t \<and> windows e dev = None \<and> p = f0 \<and> fresh e = Suc f0)"
| "pc_ok dev f0 e m t (AtUnlock p) = (m = Some t \<and> windows e dev = Some p)"
| "pc_ok dev f0 e m t (Returned p) = (windows e dev = Some p)"

definition reg_inv :: "string \<Rightarrow> addr \<Rightarrow> reg_state \<Rightarrow> bool" where
  "reg_inv dev f0 s \<longleftrightarrow>
     (\<forall>t. pc_ok dev f0 (engine s) (mu s) t (pcs s t)) \<and>
     (windows (engine s) dev = None \<longrightarrow>
        fresh (engine s) = f0 \<or> (\<exists>t. pcs s t = AtInsert f0)) \<and>
     (\<forall>p. windows (engine s) dev = Some p \<longrightarrow> p = f0 \<and> fresh (engine s) = Suc f0)"

section \<open>Properties\<close>

subsection \<open>The code's statistics are the specification's\<close>

lemma fbind_Inr [simp]: "fbind (Inr x) f = f x"
  by (simp add: fbind_def)

lemma fbind_Inl [simp]: "fbind (Inl e) f = Inl e"
  by (simp add: fbind_def)

lemma foldl_sum_loop: "foldl (\<lambda>sum v. sum + v) acc xs = acc + sum_list xs"
  for acc :: real
  by (induction xs arbitrary: acc) simp_all

lemma foldl_variance_loop:
  "foldl (\<lambda>variance v. variance + (v - m) * (v - m)) acc xs
     = acc + sum_list (map (\<lambda>x. (x - m)\<^sup>2) xs)"
  for acc :: real
  by (induction xs arbitrary: acc) (simp_all add: power2_eq_square)

lemma calculateAverage_eq: "calculateAverage xs = Inr (spec_mean xs)"
  by (simp add: calculateAverage_def spec_mean_def fdiv_def foldl_sum_loop)

lemma calculateStdDev_eq: "calculateStdDev xs m = Inr (spec_stddev xs m)"
  by (simp add: calculateStdDev_def spec_stddev_def fdiv_def foldl_variance_loop)

lemma zScore_eq: "zScore v avg sd = Inr (spec_zscore v avg sd)"
  by (simp add: zScore_def spec_zscore_def fdiv_def)

lemma window_scores_eq: "window_scores w data = Inr (spec_scores w data)"
  by (simp add: window_scores_def spec_scores_def calculateAverage_eq calculateStdDev_eq
      zScore_eq Let_def)


subsection \<open>analyze in closed form\<close>

lemma getOrCreate_cases:
  "getOrCreate a dev =
     (case windows a dev of
        Some p \<Rightarrow> Inr (p, a)
      | None \<Rightarrow>
          if \<not> window_size_ok (windowSize a) then Inl MakeSliceCapOutOfRange
          else Inr (fresh a,
                    a\<lparr>heap := (heap a)(fresh a :=
                         \<lparr>cpuValues = [], rpsValues = [], timestamps = [],
                          maxSize = windowSize a\<rparr>),
                      fresh := Suc (fresh a),
                      windows := (windows a)(dev \<mapsto> fresh a)\<rparr>))"
  by (auto simp: getOrCreate_def make_slice_def window_size_ok_def Let_def not_le not_less
      split: option.splits)

lemma small_window_sizes:
  "window_size_ok 1" "window_size_ok 3" "window_size_ok 50"
  by (simp_all add: window_size_ok_def maxAlloc_def sizeof_float64_def sizeof_Time_def)

text \<open>A window size above the limit of \<open>make\<close>: the first reading of a device
  panics.\<close>

lemma huge_window_size_panics:
  "getOrCreate (NewAnalyzer (2 ^ 62) th) dev = Inl MakeSliceCapOutOfRange"
  by (simp add: getOrCreate_def make_slice_def NewAnalyzer_def maxAlloc_def
      sizeof_float64_def)

lemma getOrCreate_post:
  assumes "getOrCreate a dev = Inr (p, a1)"
  shows "windows a1 dev = Some p" and "anomalyThreshold a1 = anomalyThreshold a"
    and "windowSize a1 = windowSize a"
    and "metricsChan a1 = metricsChan a" and "resultsChan a1 = resultsChan a"
    and "stopChan a1 = stopChan a" and "wg a1 = wg a"
  using assms by (auto simp: getOrCreate_cases split: option.splits if_splits)


lemma analyze_eq:
  assumes "getOrCreate a (DeviceID data) = Inr (p, a1)"
  shows "analyze a data =
           Inr (result_of (anomalyThreshold a1) (spec_scores (window_append (heap a1 p) data) data) data,
                a1\<lparr>heap := (heap a1)(p := window_append (heap a1 p) data)\<rparr>)"
  using assms
  by (simp add: analyze_def window_scores_eq result_of_def Let_def split: prod.splits)


text \<open>The result of analyze is determined by the device's window in the state it
  returns.\<close>

lemma analyze_result:
  assumes "analyze a data = Inr (r, a2)"
  shows "\<exists>p. windows a2 (DeviceID data) = Some p \<and>
             r = result_of (anomalyThreshold a) (spec_scores (heap a2 p) data) data"
proof (cases "getOrCreate a (DeviceID data)")
  case (Inl e)
  with assms show ?thesis by (simp add: analyze_def)
next
  case (Inr q)
  obtain p a1 where q: "q = (p, a1)" by (cases q)
  with Inr have g: "getOrCreate a (DeviceID data) = Inr (p, a1)" by simp
  from assms analyze_eq [OF g] getOrCreate_post(1,2) [OF g]
  show ?thesis by auto
qed

lemma analyze_result_window:
  assumes "analyze a data = Inr (r, a2)" and "windows a2 (DeviceID data) = Some p"
  shows "r = result_of (anomalyThreshold a) (spec_scores (heap a2 p) data) data"
  using analyze_result [OF assms(1)] assms(2) by auto

subsection \<open>Classification\<close>

lemma classify_both:
  "\<bar>zc\<bar> > th \<Longrightarrow> \<bar>zr\<bar> > th \<Longrightarrow> classify th zc zr = (True, ''MULTIPLE_ANOMALY'')"
  by (simp add: classify_def)

lemma classify_none:
  "\<not> \<bar>zc\<bar> > th \<Longrightarrow> \<not> \<bar>zr\<bar> > th \<Longrightarrow> classify th zc zr = (False, '''')"
  by (simp add: classify_def)

lemma classify_labels:
  "classify th zc zr \<in>
     {(False, ''''), (True, ''CPU_SPIKE''), (True, ''CPU_DROP''), (True, ''RPS_SPIKE''),
      (True, ''RPS_DROP''), (True, ''MULTIPLE_ANOMALY'')}"
  by (simp add: classify_def)

subsection \<open>Mean and standard deviation\<close>

text \<open>
  Claim C2. The mean of an empty sequence is 0 and the standard deviation of an empty
  sequence is 0; for a non-empty sequence of length \<open>n\<close> the standard deviation is the
  population one, \<open>sqrt (sum ((x - mean)^2) / n)\<close>, with divisor \<open>n\<close>.
\<close>

theorem C2_mean_stddev:
  "calculateAverage [] = Inr 0 \<and>
   calculateStdDev [] m = Inr 0 \<and>
   (values \<noteq> [] \<longrightarrow>
      calculateStdDev values m
        = Inr (sqrt (sum_list (map (\<lambda>x. (x - m)\<^sup>2) values) / real (length values))))"
  by (simp add: calculateAverage_def calculateStdDev_eq spec_stddev_def)

text \<open>At the values 0 and 2 around their mean 1 the result is 1, the population value;
  dividing by \<open>n - 1\<close> would give \<open>sqrt 2\<close>.\<close>

theorem C2_mean_stddev_witness:
  "[0, 2 :: real] \<noteq> [] \<and> calculateStdDev [0, 2] 1 = Inr 1 \<and>
   calculateAverage [] = Inr 0 \<and> calculateStdDev [] 1 = Inr 0"
  using C2_mean_stddev [of 1 "[0, 2]"] by simp

subsection \<open>Z-scores\<close>


subsection \<open>Classification of a reading\<close>

text \<open>
  Claim C3. When both \<open>|zCPU| > threshold\<close> and \<open>|zRPS| > threshold\<close> hold for a reading,
  the result has the anomaly flag set, the type \<open>MULTIPLE_ANOMALY\<close> whatever the two
  directions are, and the score \<open>max |zCPU| |zRPS|\<close>. The z-scores are those computed
  from the device's window after the append, which is the window of the state that
  \<open>analyze\<close> returns.
\<close>

theorem C3_multiple_anomaly:
  assumes "analyze a data = Inr (r, a2)"
    and "windows a2 (DeviceID data) = Some p"
    and "window_scores (heap a2 p) data = Inr s"
    and "\<bar>zScoreCPU s\<bar> > anomalyThreshold a"
    and "\<bar>zScoreRPS s\<bar> > anomalyThreshold a"
  shows "IsAnomaly r \<and> AnomalyType r = ''MULTIPLE_ANOMALY'' \<and>
         AnomalyScore r = max \<bar>zScoreCPU s\<bar> \<bar>zScoreRPS s\<bar>"
proof -
  from assms(3) have s: "s = spec_scores (heap a2 p) data"
    by (simp add: window_scores_eq)
  from analyze_result_window [OF assms(1,2)] s
  have r: "r = result_of (anomalyThreshold a) s data" by simp
  from classify_both [OF assms(4,5)] r show ?thesis
    by (simp add: result_of_def)
qed

text \<open>
  Claim C10. In every result of \<open>analyze\<close> the flag and the type agree: the flag is set
  exactly when the type is not the empty string; a result that is not anomalous has the
  empty string as its type, and an anomalous one has one of the five labels.
\<close>

theorem C10_flag_type_consistent:
  assumes "analyze a data = Inr (r, a2)"
  shows "(IsAnomaly r \<longleftrightarrow> AnomalyType r \<noteq> '''') \<and>
         (\<not> IsAnomaly r \<longrightarrow> AnomalyType r = '''') \<and>
         (IsAnomaly r \<longrightarrow>
            AnomalyType r \<in> {''CPU_SPIKE'', ''CPU_DROP'', ''RPS_SPIKE'', ''RPS_DROP'',
                             ''MULTIPLE_ANOMALY''})"
proof -
  from analyze_result [OF assms] obtain th s where
    r: "r = result_of th s data" by blast
  from classify_labels [of th "zScoreCPU s" "zScoreRPS s"] r show ?thesis
    by (auto simp: result_of_def)
qed

subsection \<open>Cold start\<close>

lemma spec_mean_short: "length xs < 2 \<Longrightarrow> spec_stddev xs (spec_mean xs) = 0"
proof (cases xs)
  case Nil
  then show ?thesis by (simp add: spec_stddev_def)
next
  case (Cons x ys)
  assume "length xs < 2"
  with Cons have "ys = []" by simp
  with Cons show ?thesis by (simp add: spec_stddev_def spec_mean_def)
qed

text \<open>
  Claim C5. A reading processed while its device's window, after the append, holds
  fewer than two samples gets standard deviation 0 for both signals, both z-scores 0 and
  no anomaly flag, whatever its CPU and request-rate values are. The threshold is the
  configured one, which is not negative.
\<close>

theorem C5_cold_start:
  assumes "analyze a data = Inr (r, a2)"
    and "windows a2 (DeviceID data) = Some p"
    and "length (cpuValues (heap a2 p)) < 2"
    and "length (rpsValues (heap a2 p)) < 2"
    and "0 \<le> anomalyThreshold a"
  shows "\<exists>s. window_scores (heap a2 p) data = Inr s \<and>
             stdDevCPU s = 0 \<and> stdDevRPS s = 0 \<and> zScoreCPU s = 0 \<and> zScoreRPS s = 0 \<and>
             StandardDev r = 0 \<and> AnomalyScore r = 0 \<and> \<not> IsAnomaly r \<and>
             AnomalyType r = ''''"
proof -
  let ?s = "spec_scores (heap a2 p) data"
  have sd: "stdDevCPU ?s = 0" "stdDevRPS ?s = 0"
    using assms(3,4) by (simp_all add: spec_scores_def Let_def spec_mean_short)
  then have z: "zScoreCPU ?s = 0" "zScoreRPS ?s = 0"
    by (simp_all add: spec_scores_def Let_def spec_zscore_def)
  have r: "r = result_of (anomalyThreshold a) ?s data"
    by (rule analyze_result_window [OF assms(1,2)])
  have c: "classify (anomalyThreshold a) 0 0 = (False, '''')"
    using assms(5) by (simp add: classify_none)
  from sd z r c show ?thesis
    by (simp add: window_scores_eq result_of_def)
qed

subsection \<open>The theorems at concrete readings\<close>

lemma quiet_engine_lookup:
  "getOrCreate quiet_engine (DeviceID loud_reading) = Inr (0, quiet_engine)"
  by (simp add: getOrCreate_cases quiet_engine_def loud_reading_def)

lemma loud_window:
  "window_append (heap quiet_engine 0) loud_reading =
     \<lparr>cpuValues = [0, 0, 0, 0, 5], rpsValues = [0, 0, 0, 0, 5],
      timestamps = [1, 2, 3, 4, 5], maxSize = 50\<rparr>"
  by (simp add: window_append_def quiet_engine_def quiet_window_def loud_reading_def Let_def)

lemma loud_scores:
  "spec_scores (window_append (heap quiet_engine 0) loud_reading) loud_reading =
     \<lparr>avgCPU = 1, avgRPS = 1, stdDevCPU = 2, stdDevRPS = 2, zScoreCPU = 2, zScoreRPS = 2\<rparr>"
proof -
  have m: "spec_mean [0, 0, 0, 0, 5] = 1"
    by (simp add: spec_mean_def)
  have "sqrt 4 = 2"
    using real_sqrt_abs [of 2] by simp
  then have sd: "spec_stddev [0, 0, 0, 0, 5] 1 = 2"
    by (simp add: spec_stddev_def)
  show ?thesis
    unfolding loud_window
    by (simp add: spec_scores_def m sd spec_zscore_def loud_reading_def)
qed

lemma loud_analyze:
  "\<exists>r a2. analyze quiet_engine loud_reading = Inr (r, a2) \<and>
          windows a2 (DeviceID loud_reading) = Some 0 \<and>
          heap a2 0 = window_append (heap quiet_engine 0) loud_reading"
  by (simp add: analyze_eq [OF quiet_engine_lookup])
     (simp add: quiet_engine_def loud_reading_def)

theorem C3_multiple_anomaly_witness:
  "\<exists>r a2 s. analyze quiet_engine loud_reading = Inr (r, a2) \<and>
     windows a2 (DeviceID loud_reading) = Some 0 \<and>
     window_scores (heap a2 0) loud_reading = Inr s \<and>
     \<bar>zScoreCPU s\<bar> > anomalyThreshold quiet_engine \<and>
     \<bar>zScoreRPS s\<bar> > anomalyThreshold quiet_engine \<and>
     IsAnomaly r \<and> AnomalyType r = ''MULTIPLE_ANOMALY'' \<and> AnomalyScore r = 2"
proof -
  from loud_analyze obtain r a2 where
    an: "analyze quiet_engine loud_reading = Inr (r, a2)" and
    win: "windows a2 (DeviceID loud_reading) = Some 0" and
    hp: "heap a2 0 = window_append (heap quiet_engine 0) loud_reading"
    by blast
  define s where "s = spec_scores (heap a2 0) loud_reading"
  have sc: "window_scores (heap a2 0) loud_reading = Inr s"
    by (simp add: s_def window_scores_eq)
  have sv: "s = \<lparr>avgCPU = 1, avgRPS = 1, stdDevCPU = 2, stdDevRPS = 2,
                  zScoreCPU = 2, zScoreRPS = 2\<rparr>"
    by (simp add: s_def hp loud_scores)
  have th: "anomalyThreshold quiet_engine = 1"
    by (simp add: quiet_engine_def NewAnalyzer_def)
  have h1: "\<bar>zScoreCPU s\<bar> > anomalyThreshold quiet_engine"
    and h2: "\<bar>zScoreRPS s\<bar> > anomalyThreshold quiet_engine"
    by (simp_all add: sv th)
  from C3_multiple_anomaly [OF an win sc h1 h2] an win sc h1 h2 sv
  show ?thesis by auto
qed

theorem C10_flag_type_consistent_witness:
  "\<exists>r a2. analyze quiet_engine loud_reading = Inr (r, a2) \<and>
     (IsAnomaly r \<longleftrightarrow> AnomalyType r \<noteq> '''') \<and>
     (\<not> IsAnomaly r \<longrightarrow> AnomalyType r = '''') \<and>
     (IsAnomaly r \<longrightarrow>
        AnomalyType r \<in> {''CPU_SPIKE'', ''CPU_DROP'', ''RPS_SPIKE'', ''RPS_DROP'',
                         ''MULTIPLE_ANOMALY''})"
proof -
  from loud_analyze obtain r a2 where
    an: "analyze quiet_engine loud_reading = Inr (r, a2)" by blast
  from C10_flag_type_consistent [OF an] an show ?thesis by blast
qed


text \<open>The first reading of a device in a new engine, with large values.\<close>

theorem C5_cold_start_witness:
  "\<exists>r a2 s. analyze (NewAnalyzer 50 2) big_reading = Inr (r, a2) \<and>
     windows a2 (DeviceID big_reading) = Some 0 \<and>
     length (cpuValues (heap a2 0)) < 2 \<and> length (rpsValues (heap a2 0)) < 2 \<and>
     0 \<le> anomalyThreshold (NewAnalyzer 50 2) \<and>
     window_scores (heap a2 0) big_reading = Inr s \<and>
     stdDevCPU s = 0 \<and> stdDevRPS s = 0 \<and> zScoreCPU s = 0 \<and> zScoreRPS s = 0 \<and>
     StandardDev r = 0 \<and> AnomalyScore r = 0 \<and> \<not> IsAnomaly r \<and> AnomalyType r = ''''"
proof -
  have g: "getOrCreate (NewAnalyzer 50 2) (DeviceID big_reading) =
     Inr (0, (NewAnalyzer 50 2)\<lparr>heap := (heap (NewAnalyzer 50 2))(0 :=
                         \<lparr>cpuValues = [], rpsValues = [], timestamps = [],
                          maxSize = 50\<rparr>),
                      fresh := Suc 0,
                      windows := (windows (NewAnalyzer 50 2))(DeviceID big_reading \<mapsto> 0)\<rparr>)"
    by (simp add: getOrCreate_cases NewAnalyzer_def small_window_sizes)
  obtain r a2 where
    an: "analyze (NewAnalyzer 50 2) big_reading = Inr (r, a2)" and
    win: "windows a2 (DeviceID big_reading) = Some 0" and
    hp: "heap a2 0 = \<lparr>cpuValues = [CPU big_reading], rpsValues = [RPS big_reading],
                       timestamps = [Timestamp big_reading], maxSize = 50\<rparr>"
    by (simp add: analyze_eq [OF g] window_append_def Let_def)
  have l1: "length (cpuValues (heap a2 0)) < 2" and l2: "length (rpsValues (heap a2 0)) < 2"
    by (simp_all add: hp)
  have th: "0 \<le> anomalyThreshold (NewAnalyzer 50 2)"
    by (simp add: NewAnalyzer_def)
  from C5_cold_start [OF an win l1 l2 th] an win l1 l2 th
  show ?thesis by blast
qed

subsection \<open>What analyze leaves unchanged\<close>

lemma analyze_frame:
  assumes "analyze a data = Inr (r, a2)"
  shows "metricsChan a2 = metricsChan a" and "resultsChan a2 = resultsChan a"
    and "stopChan a2 = stopChan a" and "wg a2 = wg a"
    and "windowSize a2 = windowSize a" and "anomalyThreshold a2 = anomalyThreshold a"
proof -
  obtain p a1 where g: "getOrCreate a (DeviceID data) = Inr (p, a1)"
    using assms by (cases "getOrCreate a (DeviceID data)") (auto simp: analyze_def)
  from assms analyze_eq [OF g]
  have a2: "a2 = a1\<lparr>heap := (heap a1)(p := window_append (heap a1 p) data)\<rparr>" by simp
  from getOrCreate_post [OF g] a2
  show "metricsChan a2 = metricsChan a" and "resultsChan a2 = resultsChan a"
    and "stopChan a2 = stopChan a" and "wg a2 = wg a"
    and "windowSize a2 = windowSize a" and "anomalyThreshold a2 = anomalyThreshold a"
    by simp_all
qed


subsection \<open>The window invariant\<close>

lemma drop_one_snoc: "drop (Suc 0) (xs @ [c]) = tl (xs @ [c])"
  by (cases xs) simp_all

lemma window_append_ok:
  assumes "window_ok ws w"
  shows "window_ok ws (window_append w data)"
  using assms by (auto simp: window_ok_def window_append_def Let_def)

lemma getOrCreate_registry_ok:
  assumes "registry_ok a" and "getOrCreate a dev = Inr (p, a1)"
  shows "registry_ok a1" and "p < fresh a1"
  using assms
  by (auto simp: getOrCreate_cases registry_ok_def window_ok_def less_Suc_eq
      window_size_ok_def split: option.splits if_splits)

lemma analyze_registry_ok:
  assumes "registry_ok a" and "analyze a data = Inr (r, a2)"
  shows "registry_ok a2"
proof -
  obtain p a1 where g: "getOrCreate a (DeviceID data) = Inr (p, a1)"
    using assms(2) by (cases "getOrCreate a (DeviceID data)") (auto simp: analyze_def)
  from assms(2) analyze_eq [OF g]
  have a2: "a2 = a1\<lparr>heap := (heap a1)(p := window_append (heap a1 p) data)\<rparr>" by simp
  from getOrCreate_registry_ok [OF assms(1) g]
  have ok: "registry_ok a1" and p: "p < fresh a1" by simp_all
  from ok p have "window_ok (windowSize a1) (heap a1 p)"
    by (simp add: registry_ok_def)
  then have "window_ok (windowSize a1) (window_append (heap a1 p) data)"
    by (rule window_append_ok)
  with ok show ?thesis
    by (simp add: a2 registry_ok_def)
qed

lemma worker_process_registry_ok:
  assumes "registry_ok a" and "worker_process a = Inr a'"
  shows "registry_ok a' \<and> windowSize a' = windowSize a"
proof (cases "wg a = 0")
  case True
  with assms show ?thesis by (simp add: worker_process_def)
next
  case False
  show ?thesis
  proof (cases "recv (metricsChan a) zero_MetricData")
    case None
    with False assms show ?thesis by (simp add: worker_process_def)
  next
    case (Some q)
    obtain data mc where q: "q = (data, mc)" by (cases q)
    let ?a0 = "a\<lparr>metricsChan := mc\<rparr>"
    have ok0: "registry_ok ?a0" using assms(1) by (simp add: registry_ok_def)
    from False Some q assms(2)
    have w: "fbind (analyze ?a0 data) (\<lambda>(result, a1).
          fbind (try_send (resultsChan a1) result) (\<lambda>(rc, sent).
            Inr (a1\<lparr>resultsChan := rc\<rparr>))) = Inr a'"
      by (simp add: worker_process_def)
    then obtain r a1 where an: "analyze ?a0 data = Inr (r, a1)"
      by (cases "analyze ?a0 data") auto
    with w obtain rc sent where ts: "try_send (resultsChan a1) r = Inr (rc, sent)"
      and a': "a' = a1\<lparr>resultsChan := rc\<rparr>"
      by (cases "try_send (resultsChan a1) r") auto
    from analyze_registry_ok [OF ok0 an] analyze_frame(5) [OF an] a'
    show ?thesis by (simp add: registry_ok_def)
  qed
qed

lemma step_registry_ok:
  assumes "registry_ok a" and "step x a = Inr a'"
  shows "registry_ok a' \<and> windowSize a' = windowSize a"
proof (cases x)
  case (OpStart n)
  with assms show ?thesis by (auto simp: Start_def registry_ok_def)
next
  case OpStop
  with assms show ?thesis
    by (auto simp: Stop_def close_chan_def registry_ok_def split: if_splits)
next
  case (OpAddMetric d)
  with assms show ?thesis
    by (auto simp: AddMetric_def try_send_def registry_ok_def split: if_splits)
next
  case OpGetStats
  with assms show ?thesis by auto
next
  case OpWorkerProcess
  with assms worker_process_registry_ok [of a a'] show ?thesis by simp
next
  case OpWorkerExit
  with assms show ?thesis by (auto simp: worker_exit_def registry_ok_def)
next
  case OpReceiveResult
  with assms show ?thesis
    by (auto simp: receive_result_def registry_ok_def split: option.splits)
qed

lemma run_registry_ok:
  assumes "registry_ok a" and "run ops a = Inr a'"
  shows "registry_ok a' \<and> windowSize a' = windowSize a"
  using assms
proof (induction ops arbitrary: a)
  case Nil
  then show ?case by simp
next
  case (Cons x xs)
  from Cons.prems(2) obtain a1 where s: "step x a = Inr a1" and r: "run xs a1 = Inr a'"
    by (cases "step x a") auto
  from step_registry_ok [OF Cons.prems(1) s] Cons.IH [OF _ r]
  show ?case by simp
qed

lemma NewAnalyzer_registry_ok: "registry_ok (NewAnalyzer ws th)"
  by (simp add: registry_ok_def NewAnalyzer_def)

text \<open>
  Claim C1. In every state an engine reaches, the three sequences of every device's
  window have at most \<open>windowSize\<close> elements. An append to a window that is full drops
  exactly the element at index 0 of each sequence after the push; an append to a window
  that has room keeps every element.
\<close>

theorem C1_window_bounded_fifo:
  assumes "run ops (NewAnalyzer ws th) = Inr a" and "windows a dev = Some p"
  shows "int (length (cpuValues (heap a p))) \<le> ws \<and>
         int (length (rpsValues (heap a p))) \<le> ws \<and>
         int (length (timestamps (heap a p))) \<le> ws \<and>
         (maxSize w \<le> int (length (cpuValues w)) \<longrightarrow>
            cpuValues (window_append w data) = tl (cpuValues w @ [CPU data]) \<and>
            rpsValues (window_append w data) = tl (rpsValues w @ [RPS data]) \<and>
            timestamps (window_append w data) = tl (timestamps w @ [Timestamp data])) \<and>
         (int (length (cpuValues w)) < maxSize w \<longrightarrow>
            cpuValues (window_append w data) = cpuValues w @ [CPU data] \<and>
            rpsValues (window_append w data) = rpsValues w @ [RPS data] \<and>
            timestamps (window_append w data) = timestamps w @ [Timestamp data])"
proof -
  from run_registry_ok [OF NewAnalyzer_registry_ok assms(1)]
  have ok: "registry_ok a" and ws: "windowSize a = ws"
    by (simp_all add: NewAnalyzer_def)
  from ok assms(2) have "window_ok (windowSize a) (heap a p)"
    by (simp add: registry_ok_def)
  with ws have bound:
    "int (length (cpuValues (heap a p))) \<le> ws \<and>
     int (length (rpsValues (heap a p))) \<le> ws \<and>
     int (length (timestamps (heap a p))) \<le> ws"
    by (simp add: window_ok_def)
  have full: "maxSize w \<le> int (length (cpuValues w)) \<longrightarrow>
            cpuValues (window_append w data) = tl (cpuValues w @ [CPU data]) \<and>
            rpsValues (window_append w data) = tl (rpsValues w @ [RPS data]) \<and>
            timestamps (window_append w data) = tl (timestamps w @ [Timestamp data])"
    by (simp add: window_append_def Let_def drop_one_snoc del: drop_append)
  have room: "int (length (cpuValues w)) < maxSize w \<longrightarrow>
            cpuValues (window_append w data) = cpuValues w @ [CPU data] \<and>
            rpsValues (window_append w data) = rpsValues w @ [RPS data] \<and>
            timestamps (window_append w data) = timestamps w @ [Timestamp data]"
    by (simp add: window_append_def Let_def)
  from bound full room show ?thesis by blast
qed

subsection \<open>Submitting a reading\<close>

text \<open>
  Claim C7. \<open>AddMetric\<close> on an engine whose ingestion queue is at capacity returns at
  once, with no error, and leaves the engine and its queue as they were: the reading
  is dropped. Below capacity the reading is put at the tail of the queue. The queue is
  that of an engine that has not been stopped.
\<close>

theorem C7_add_metric_drop_on_full:
  assumes "\<not> closed (metricsChan a)"
  shows "(cap (metricsChan a) \<le> length (buf (metricsChan a)) \<longrightarrow>
            AddMetric a data = Inr a) \<and>
         (length (buf (metricsChan a)) < cap (metricsChan a) \<longrightarrow>
            AddMetric a data =
              Inr (a\<lparr>metricsChan := (metricsChan a)\<lparr>buf := buf (metricsChan a) @ [data]\<rparr>\<rparr>))"
  using assms by (simp add: AddMetric_def try_send_def)

subsection \<open>No operation aborts a running engine\<close>











subsection \<open>The engine theorems at concrete runs\<close>

theorem C7_add_metric_drop_on_full_witness:
  "\<not> closed (metricsChan full_engine) \<and>
   cap (metricsChan full_engine) \<le> length (buf (metricsChan full_engine)) \<and>
   AddMetric full_engine loud_reading = Inr full_engine \<and>
   \<not> closed (metricsChan (NewAnalyzer 50 2)) \<and>
   length (buf (metricsChan (NewAnalyzer 50 2))) < cap (metricsChan (NewAnalyzer 50 2)) \<and>
   AddMetric (NewAnalyzer 50 2) loud_reading =
     Inr ((NewAnalyzer 50 2)\<lparr>metricsChan :=
            \<lparr>buf = [loud_reading], cap = 1000, closed = False\<rparr>\<rparr>)"
proof -
  have f: "\<not> closed (metricsChan full_engine)"
    "cap (metricsChan full_engine) \<le> length (buf (metricsChan full_engine))"
    by (simp_all add: full_engine_def)
  have n: "\<not> closed (metricsChan (NewAnalyzer 50 2))"
    "length (buf (metricsChan (NewAnalyzer 50 2))) < cap (metricsChan (NewAnalyzer 50 2))"
    by (simp_all add: NewAnalyzer_def make_chan_def)
  have e: "(metricsChan (NewAnalyzer 50 2))\<lparr>buf := buf (metricsChan (NewAnalyzer 50 2)) @ [loud_reading]\<rparr>
             = \<lparr>buf = [loud_reading], cap = 1000, closed = False\<rparr>"
    by (simp add: NewAnalyzer_def make_chan_def)
  from C7_add_metric_drop_on_full [OF f(1), of loud_reading]
       C7_add_metric_drop_on_full [OF n(1), of loud_reading] f n e
  show ?thesis by simp
qed


lemma analyze_new:
  assumes "windows a (DeviceID data) = None" and "window_size_ok (windowSize a)"
  shows "\<exists>r. analyze a data =
           Inr (r, a\<lparr>heap := (heap a)(fresh a :=
                        window_append \<lparr>cpuValues = [], rpsValues = [], timestamps = [],
                                        maxSize = windowSize a\<rparr> data),
                     fresh := Suc (fresh a),
                     windows := (windows a)(DeviceID data \<mapsto> fresh a)\<rparr>)"
proof -
  have g: "getOrCreate a (DeviceID data) =
     Inr (fresh a, a\<lparr>heap := (heap a)(fresh a :=
                         \<lparr>cpuValues = [], rpsValues = [], timestamps = [],
                          maxSize = windowSize a\<rparr>),
                      fresh := Suc (fresh a),
                      windows := (windows a)(DeviceID data \<mapsto> fresh a)\<rparr>)"
    using assms by (simp add: getOrCreate_cases)
  show ?thesis by (simp add: analyze_eq [OF g])
qed

lemma analyze_known:
  assumes "windows a (DeviceID data) = Some p"
  shows "analyze a data =
           Inr (result_of (anomalyThreshold a)
                  (spec_scores (window_append (heap a p) data) data) data,
                a\<lparr>heap := (heap a)(p := window_append (heap a p) data)\<rparr>)"
proof -
  have g: "getOrCreate a (DeviceID data) = Inr (p, a)"
    using assms by (simp add: getOrCreate_cases)
  show ?thesis by (rule analyze_eq [OF g])
qed

lemma run_one_reading:
  "\<exists>a. run [OpStart 1, OpAddMetric big_reading, OpWorkerProcess] (NewAnalyzer 1 2) = Inr a \<and>
       windows a ''dev-2'' = Some 0"
proof -
  let ?a1 = "(NewAnalyzer 1 2)\<lparr>wg := 1\<rparr>"
  let ?a2 = "?a1\<lparr>metricsChan := \<lparr>buf = [big_reading], cap = 1000, closed = False\<rparr>\<rparr>"
  let ?a3 = "?a1\<lparr>metricsChan := \<lparr>buf = [], cap = 1000, closed = False\<rparr>\<rparr>"
  have s1: "step (OpStart 1) (NewAnalyzer 1 2) = Inr ?a1"
    by (simp add: Start_def NewAnalyzer_def)
  have s2: "step (OpAddMetric big_reading) ?a1 = Inr ?a2"
    by (simp add: AddMetric_def try_send_def NewAnalyzer_def make_chan_def)
  have rc: "recv (metricsChan ?a2) zero_MetricData = Some (big_reading, metricsChan ?a3)"
    by (simp add: recv_def)
  have "windows ?a3 (DeviceID big_reading) = None" "window_size_ok (windowSize ?a3)"
    by (simp_all add: NewAnalyzer_def small_window_sizes)
  from analyze_new [OF this] obtain r a4 where
    an: "analyze ?a3 big_reading = Inr (r, a4)" and
    w4: "windows a4 (DeviceID big_reading) = Some 0" and
    r4: "\<not> closed (resultsChan a4)"
    by (auto simp: NewAnalyzer_def make_chan_def)
  from r4 have
    "try_send (resultsChan a4) r = Inr ((resultsChan a4)\<lparr>buf := buf (resultsChan a4) @ [r]\<rparr>, True) \<or>
     try_send (resultsChan a4) r = Inr (resultsChan a4, False)"
    by (simp add: try_send_def)
  then obtain rc' sent where ts: "try_send (resultsChan a4) r = Inr (rc', sent)"
    by auto
  have a3: "?a2\<lparr>metricsChan := metricsChan ?a3\<rparr> = ?a3" by simp
  have s3: "step OpWorkerProcess ?a2 = Inr (a4\<lparr>resultsChan := rc'\<rparr>)"
    using rc an ts by (simp add: worker_process_def a3)
  from s1 s2 s3 w4 show ?thesis
    by (simp add: big_reading_def)
qed

theorem C1_window_bounded_fifo_witness:
  "\<exists>a. run [OpStart 1, OpAddMetric big_reading, OpWorkerProcess] (NewAnalyzer 1 2) = Inr a \<and>
       windows a ''dev-2'' = Some 0 \<and>
       int (length (cpuValues (heap a 0))) \<le> 1 \<and>
       int (length (rpsValues (heap a 0))) \<le> 1 \<and>
       int (length (timestamps (heap a 0))) \<le> 1 \<and>
       maxSize full_window \<le> int (length (cpuValues full_window)) \<and>
       cpuValues (window_append full_window loud_reading) = [2, 5] \<and>
       rpsValues (window_append full_window loud_reading) = [4, 5] \<and>
       timestamps (window_append full_window loud_reading) = [6, 5] \<and>
       int (length (cpuValues quiet_window)) < maxSize quiet_window \<and>
       cpuValues (window_append quiet_window loud_reading) = [0, 0, 0, 0, 5]"
proof -
  from run_one_reading obtain a where
    r: "run [OpStart 1, OpAddMetric big_reading, OpWorkerProcess] (NewAnalyzer 1 2) = Inr a"
    and w: "windows a ''dev-2'' = Some 0" by blast
  have f: "maxSize full_window \<le> int (length (cpuValues full_window))"
    by (simp add: full_window_def)
  have q: "int (length (cpuValues quiet_window)) < maxSize quiet_window"
    by (simp add: quiet_window_def)
  from C1_window_bounded_fifo [OF r w, of full_window loud_reading]
       C1_window_bounded_fifo [OF r w, of quiet_window loud_reading] f q
  have "int (length (cpuValues (heap a 0))) \<le> 1 \<and>
       int (length (rpsValues (heap a 0))) \<le> 1 \<and>
       int (length (timestamps (heap a 0))) \<le> 1 \<and>
       cpuValues (window_append full_window loud_reading) = [2, 5] \<and>
       rpsValues (window_append full_window loud_reading) = [4, 5] \<and>
       timestamps (window_append full_window loud_reading) = [6, 5] \<and>
       cpuValues (window_append quiet_window loud_reading) = [0, 0, 0, 0, 5]"
    by (simp add: full_window_def quiet_window_def loud_reading_def)
  with r w f q show ?thesis by blast
qed

subsection \<open>A spike in a window of three\<close>

lemma sq_le_sum_sq:
  fixes m :: real
  assumes "v \<in> set xs"
  shows "(v - m)\<^sup>2 \<le> sum_list (map (\<lambda>x. (x - m)\<^sup>2) xs)"
  using assms
proof (induction xs)
  case Nil
  then show ?case by simp
next
  case (Cons x xs)
  have nn: "0 \<le> sum_list (map (\<lambda>x. (x - m)\<^sup>2) xs)"
    by (rule sum_list_nonneg) auto
  show ?case
  proof (cases "v = x")
    case True
    with nn show ?thesis by simp
  next
    case False
    with Cons.prems have "v \<in> set xs" by simp
    from Cons.IH [OF this] have "(v - m)\<^sup>2 \<le> sum_list (map (\<lambda>x. (x - m)\<^sup>2) xs)" .
    moreover have "0 \<le> (x - m)\<^sup>2" by simp
    ultimately have "(v - m)\<^sup>2 \<le> (x - m)\<^sup>2 + sum_list (map (\<lambda>x. (x - m)\<^sup>2) xs)"
      by linarith
    then show ?thesis by simp
  qed
qed

text \<open>The z-score of a member of a sequence of \<open>n\<close> values, against the population
  standard deviation of the sequence, has a square of at most \<open>n\<close>.\<close>

lemma zscore_sq_le_length:
  assumes "v \<in> set xs"
  shows "(spec_zscore v m (spec_stddev xs m))\<^sup>2 \<le> real (length xs)"
proof (cases "spec_stddev xs m > 0")
  case False
  then show ?thesis by (simp add: spec_zscore_def)
next
  case True
  define S where "S = sum_list (map (\<lambda>x. (x - m)\<^sup>2) xs)"
  define n where "n = real (length xs)"
  from assms have ne: "xs \<noteq> []" by auto
  then have n: "0 < n" by (simp add: n_def)
  have S0: "0 \<le> S" unfolding S_def by (rule sum_list_nonneg) auto
  have sd: "spec_stddev xs m = sqrt (S / n)"
    using ne by (simp add: spec_stddev_def S_def n_def)
  from S0 n have "0 \<le> S / n" by simp
  then have sd2: "(spec_stddev xs m)\<^sup>2 = S / n" by (simp add: sd)
  from True sd2 have "0 < S / n"
    by (metis zero_less_power)
  with n have S: "0 < S" by (simp add: zero_less_divide_iff)
  have le: "(v - m)\<^sup>2 \<le> S" unfolding S_def by (rule sq_le_sum_sq [OF assms])
  have "(spec_zscore v m (spec_stddev xs m))\<^sup>2 = (v - m)\<^sup>2 / (S / n)"
    using True by (simp add: spec_zscore_def power_divide sd2)
  also have "\<dots> = (v - m)\<^sup>2 * n / S" by simp
  also have "\<dots> \<le> n"
  proof -
    from le n have "(v - m)\<^sup>2 * n \<le> S * n" by (rule mult_right_mono [OF _ less_imp_le])
    then have "(v - m)\<^sup>2 * n \<le> n * S" by (simp only: mult.commute)
    with S show ?thesis by (simp only: pos_divide_le_eq)
  qed
  finally show ?thesis by (simp add: n_def)
qed

lemma zscore_window_of_three:
  assumes "v \<in> set xs" and "length xs = 3"
  shows "\<bar>spec_zscore v m (spec_stddev xs m)\<bar> < 2"
proof -
  let ?z = "spec_zscore v m (spec_stddev xs m)"
  from zscore_sq_le_length [OF assms(1), of m] assms(2) have "?z\<^sup>2 \<le> 3" by simp
  then have "\<bar>?z\<bar>\<^sup>2 < 2\<^sup>2" by simp
  then show ?thesis by (rule power2_less_imp_less) simp
qed

lemma analyze_known_step:
  assumes "windows a (DeviceID data) = Some p"
  shows "\<exists>r a'. analyze a data = Inr (r, a') \<and> windows a' (DeviceID data) = Some p \<and>
           heap a' p = window_append (heap a p) data \<and>
           anomalyThreshold a' = anomalyThreshold a \<and>
           r = result_of (anomalyThreshold a)
                 (spec_scores (window_append (heap a p) data) data) data"
  using assms by (simp add: analyze_known [OF assms])

lemma sqrt_1800_bounds: "42.425 < sqrt 1800" "sqrt 1800 < 42.435"
proof -
  show "42.425 < sqrt 1800" by (rule real_less_rsqrt) (simp add: power2_eq_square)
  show "sqrt 1800 < 42.435" by (rule real_less_lsqrt) (simp_all add: power2_eq_square)
qed

text \<open>
  Claim C6. With window size 3 and threshold 2, the CPU readings 10, 10, 10, 100 of one
  device, in this order and with any request rates and timestamps, give on the fourth
  reading the statistics of the retained values 10, 10, 100: mean 40, population
  standard deviation \<open>sqrt (((10-40)^2 + (10-40)^2 + (100-40)^2) / 3)\<close>, about 42.43, and
  CPU z-score \<open>(100 - 40) / 42.43\<close>, about 1.41, below the threshold; the anomaly flag
  of the fourth result is false.
\<close>

theorem C6_spike_in_window_of_three:
  "\<exists>r1 r2 r3 r4 a p s.
     analyze_all (NewAnalyzer 3 2)
       [\<lparr>DeviceID = dev, Timestamp = t1, CPU = 10, RPS = q1\<rparr>,
        \<lparr>DeviceID = dev, Timestamp = t2, CPU = 10, RPS = q2\<rparr>,
        \<lparr>DeviceID = dev, Timestamp = t3, CPU = 10, RPS = q3\<rparr>,
        \<lparr>DeviceID = dev, Timestamp = t4, CPU = 100, RPS = q4\<rparr>]
       = Inr ([r1, r2, r3, r4], a) \<and>
     windows a dev = Some p \<and>
     cpuValues (heap a p) = [10, 10, 100] \<and>
     window_scores (heap a p) \<lparr>DeviceID = dev, Timestamp = t4, CPU = 100, RPS = q4\<rparr> = Inr s \<and>
     avgCPU s = 40 \<and> RollingAvgCPU r4 = 40 \<and>
     stdDevCPU s = sqrt (((10 - 40)\<^sup>2 + (10 - 40)\<^sup>2 + (100 - 40)\<^sup>2) / 3) \<and>
     \<bar>stdDevCPU s - 42.43\<bar> < 0.005 \<and>
     zScoreCPU s = (100 - 40) / stdDevCPU s \<and>
     \<bar>zScoreCPU s - 1.41\<bar> < 0.005 \<and>
     \<bar>zScoreCPU s\<bar> < 2 \<and>
     \<not> IsAnomaly r4"
proof -
  define d1 where "d1 = \<lparr>DeviceID = dev, Timestamp = t1, CPU = 10, RPS = q1\<rparr>"
  define d2 where "d2 = \<lparr>DeviceID = dev, Timestamp = t2, CPU = 10, RPS = q2\<rparr>"
  define d3 where "d3 = \<lparr>DeviceID = dev, Timestamp = t3, CPU = 10, RPS = q3\<rparr>"
  define d4 where "d4 = \<lparr>DeviceID = dev, Timestamp = t4, CPU = 100, RPS = q4\<rparr>"
  define w4 where
    "w4 = \<lparr>cpuValues = [10, 10, 100], rpsValues = [q2, q3, q4], timestamps = [t2, t3, t4],
           maxSize = 3\<rparr>"
  have dev: "DeviceID d1 = dev" "DeviceID d2 = dev" "DeviceID d3 = dev" "DeviceID d4 = dev"
    by (simp_all add: d1_def d2_def d3_def d4_def)
  have "windows (NewAnalyzer 3 2) (DeviceID d1) = None"
    "window_size_ok (windowSize (NewAnalyzer 3 2))"
    by (simp_all add: NewAnalyzer_def small_window_sizes)
  from analyze_new [OF this] obtain r1 a1 where
    an1: "analyze (NewAnalyzer 3 2) d1 = Inr (r1, a1)" and
    k1: "windows a1 dev = Some 0" and
    h1: "heap a1 0 = \<lparr>cpuValues = [10], rpsValues = [q1], timestamps = [t1], maxSize = 3\<rparr>" and
    th1: "anomalyThreshold a1 = 2"
    by (auto simp: NewAnalyzer_def window_append_def d1_def)
  from k1 dev have "windows a1 (DeviceID d2) = Some 0" by simp
  from analyze_known_step [OF this] obtain r2 a2 where
    an2: "analyze a1 d2 = Inr (r2, a2)" and
    k2: "windows a2 dev = Some 0" and
    h2: "heap a2 0 = \<lparr>cpuValues = [10, 10], rpsValues = [q1, q2], timestamps = [t1, t2],
                      maxSize = 3\<rparr>" and
    th2: "anomalyThreshold a2 = 2"
    by (auto simp: h1 th1 window_append_def d2_def)
  from k2 dev have "windows a2 (DeviceID d3) = Some 0" by simp
  from analyze_known_step [OF this] obtain r3 a3 where
    an3: "analyze a2 d3 = Inr (r3, a3)" and
    k3: "windows a3 dev = Some 0" and
    h3: "heap a3 0 = \<lparr>cpuValues = [10, 10, 10], rpsValues = [q1, q2, q3],
                      timestamps = [t1, t2, t3], maxSize = 3\<rparr>" and
    th3: "anomalyThreshold a3 = 2"
    by (auto simp: h2 th2 window_append_def d3_def)
  from k3 dev have "windows a3 (DeviceID d4) = Some 0" by simp
  from analyze_known_step [OF this] obtain r4 a4 where
    an4: "analyze a3 d4 = Inr (r4, a4)" and
    k4: "windows a4 dev = Some 0" and
    h4: "heap a4 0 = w4" and
    r4: "r4 = result_of 2 (spec_scores w4 d4) d4"
    by (auto simp: h3 th3 window_append_def d4_def w4_def)
  define s where "s = spec_scores w4 d4"
  have run: "analyze_all (NewAnalyzer 3 2) [d1, d2, d3, d4] = Inr ([r1, r2, r3, r4], a4)"
    by (simp add: an1 an2 an3 an4)
  have sc: "window_scores (heap a4 0) d4 = Inr s"
    by (simp add: h4 s_def window_scores_eq)
  have avg: "avgCPU s = 40"
    by (simp add: s_def spec_scores_def Let_def w4_def spec_mean_def)
  have sd: "stdDevCPU s = sqrt 1800"
    by (simp add: s_def spec_scores_def Let_def w4_def spec_mean_def spec_stddev_def)
  have sdf: "stdDevCPU s = sqrt (((10 - 40)\<^sup>2 + (10 - 40)\<^sup>2 + (100 - 40)\<^sup>2) / 3)"
    by (simp add: sd)
  have b1: "42.425 < stdDevCPU s" and b2: "stdDevCPU s < 42.435"
    unfolding sd by (rule sqrt_1800_bounds)+
  have sdb: "\<bar>stdDevCPU s - 42.43\<bar> < 0.005"
    unfolding abs_less_iff using b1 b2 by simp
  from b1 have pos: "0 < stdDevCPU s" by simp
  have "zScoreCPU s = spec_zscore (CPU d4) (avgCPU s) (stdDevCPU s)"
    by (simp add: s_def spec_scores_def Let_def)
  with pos avg have z: "zScoreCPU s = (100 - 40) / stdDevCPU s"
    by (simp add: spec_zscore_def d4_def)
  have zl: "1.405 < zScoreCPU s"
  proof -
    from b2 have "1.405 * stdDevCPU s < 100 - 40" by simp
    with pos show ?thesis unfolding z by (simp only: pos_less_divide_eq)
  qed
  have zu: "zScoreCPU s < 1.415"
  proof -
    from b1 have "100 - 40 < 1.415 * stdDevCPU s" by simp
    with pos show ?thesis unfolding z by (simp only: pos_divide_less_eq)
  qed
  have zb: "\<bar>zScoreCPU s - 1.41\<bar> < 0.005"
    unfolding abs_less_iff using zl zu by simp
  have zc: "\<bar>zScoreCPU s\<bar> < 2"
    unfolding abs_less_iff using zl zu by simp
  have "zScoreRPS s =
          spec_zscore q4 (spec_mean [q2, q3, q4])
            (spec_stddev [q2, q3, q4] (spec_mean [q2, q3, q4]))"
    by (simp add: s_def spec_scores_def Let_def w4_def d4_def)
  moreover have "\<bar>spec_zscore q4 (spec_mean [q2, q3, q4])
            (spec_stddev [q2, q3, q4] (spec_mean [q2, q3, q4]))\<bar> < 2"
    by (rule zscore_window_of_three) simp_all
  ultimately have zr: "\<bar>zScoreRPS s\<bar> < 2" by simp
  from zc zr have "classify 2 (zScoreCPU s) (zScoreRPS s) = (False, '''')"
    by (simp add: classify_none)
  then have flag: "\<not> IsAnomaly r4" and ravg: "RollingAvgCPU r4 = avgCPU s"
    by (simp_all add: r4 result_of_def s_def)
  have cpu: "cpuValues (heap a4 0) = [10, 10, 100]"
    by (simp add: h4 w4_def)
  from run k4 cpu sc avg ravg sdf sdb z zb zc flag
  show ?thesis
    unfolding d1_def d2_def d3_def d4_def by (metis (no_types))
qed

text \<open>The same run with a request rate that jumps from 0 to 1000 on the fourth
  reading: the flag stays false.\<close>

theorem C6_spike_in_window_of_three_witness:
  "\<exists>r1 r2 r3 r4 a p s.
     analyze_all (NewAnalyzer 3 2)
       [\<lparr>DeviceID = ''dev-1'', Timestamp = 1, CPU = 10, RPS = 0\<rparr>,
        \<lparr>DeviceID = ''dev-1'', Timestamp = 2, CPU = 10, RPS = 0\<rparr>,
        \<lparr>DeviceID = ''dev-1'', Timestamp = 3, CPU = 10, RPS = 0\<rparr>,
        \<lparr>DeviceID = ''dev-1'', Timestamp = 4, CPU = 100, RPS = 1000\<rparr>]
       = Inr ([r1, r2, r3, r4], a) \<and>
     windows a ''dev-1'' = Some p \<and>
     cpuValues (heap a p) = [10, 10, 100] \<and>
     window_scores (heap a p) \<lparr>DeviceID = ''dev-1'', Timestamp = 4, CPU = 100, RPS = 1000\<rparr>
       = Inr s \<and>
     avgCPU s = 40 \<and> RollingAvgCPU r4 = 40 \<and>
     stdDevCPU s = sqrt (((10 - 40)\<^sup>2 + (10 - 40)\<^sup>2 + (100 - 40)\<^sup>2) / 3) \<and>
     \<bar>stdDevCPU s - 42.43\<bar> < 0.005 \<and>
     zScoreCPU s = (100 - 40) / stdDevCPU s \<and>
     \<bar>zScoreCPU s - 1.41\<bar> < 0.005 \<and>
     \<bar>zScoreCPU s\<bar> < 2 \<and>
     \<not> IsAnomaly r4"
  by (rule C6_spike_in_window_of_three
        [where dev = "''dev-1''" and ?t1.0 = 1 and ?t2.0 = 2 and ?t3.0 = 3 and ?t4.0 = 4
           and ?q1.0 = 0 and ?q2.0 = 0 and ?q3.0 = 0 and ?q4.0 = 1000])

subsection \<open>At most one window per device under interleaving\<close>

lemma reg_inv_init:
  assumes "windows a dev = None"
  shows "reg_inv dev (fresh a) (reg_init a)"
  using assms by (simp add: reg_inv_def reg_init_def)

lemma pc_ok_holder:
  assumes "pc_ok dev f0 e m t c" and "in_section c"
  shows "m = Some t"
  using assms by (cases c) simp_all

text \<open>While a worker holds the mutex, every other worker is before the section or past
  it.\<close>

lemma others_outside:
  assumes "reg_inv dev f0 s" and "mu s = Some t" and "u \<noteq> t"
  shows "\<not> in_section (pcs s u)"
proof
  assume "in_section (pcs s u)"
  moreover from assms(1) have "pc_ok dev f0 (engine s) (mu s) u (pcs s u)"
    by (simp add: reg_inv_def)
  ultimately have "mu s = Some u" by (rule pc_ok_holder [rotated])
  with assms(2,3) show False by simp
qed

lemma pc_ok_outside:
  assumes "pc_ok dev f0 e m u c" and "\<not> in_section c"
    and "windows e' dev = windows e dev"
  shows "pc_ok dev f0 e' m' u c"
  using assms by (cases c) simp_all

lemma reg_inv_lock:
  assumes "reg_inv dev f0 s" and "pcs s t = AtLock" and "mu s = None"
  shows "reg_inv dev f0 (s\<lparr>mu := Some t, pcs := (pcs s)(t := AtLookup)\<rparr>)"
proof -
  have out: "\<not> in_section (pcs s u)" for u
  proof
    assume "in_section (pcs s u)"
    moreover from assms(1) have "pc_ok dev f0 (engine s) (mu s) u (pcs s u)"
      by (simp add: reg_inv_def)
    ultimately have "mu s = Some u" by (rule pc_ok_holder [rotated])
    with assms(3) show False by simp
  qed
  let ?s' = "s\<lparr>mu := Some t, pcs := (pcs s)(t := AtLookup)\<rparr>"
  have th: "pc_ok dev f0 (engine ?s') (mu ?s') u (pcs ?s' u)" for u
  proof (cases "u = t")
    case True
    then show ?thesis by simp
  next
    case False
    from assms(1) have "pc_ok dev f0 (engine s) (mu s) u (pcs s u)"
      by (simp add: reg_inv_def)
    from pc_ok_outside [OF this out] False show ?thesis by simp
  qed
  have ins: "(\<exists>u. pcs s u = AtInsert f0) \<Longrightarrow> False"
    using out by (metis in_section.simps(4))
  from assms(1) ins have g1: "windows (engine s) dev = None \<longrightarrow> fresh (engine s) = f0"
    by (auto simp: reg_inv_def)
  from assms(1) have g2: "\<forall>p. windows (engine s) dev = Some p \<longrightarrow> p = f0 \<and> fresh (engine s) = Suc f0"
    by (simp add: reg_inv_def)
  show ?thesis
    unfolding reg_inv_def
  proof (intro conjI)
    show "\<forall>u. pc_ok dev f0 (engine ?s') (mu ?s') u (pcs ?s' u)" using th by blast
    show "windows (engine ?s') dev = None \<longrightarrow>
            fresh (engine ?s') = f0 \<or> (\<exists>u. pcs ?s' u = AtInsert f0)"
      using g1 by simp
    show "\<forall>p. windows (engine ?s') dev = Some p \<longrightarrow> p = f0 \<and> fresh (engine ?s') = Suc f0"
      using g2 by simp
  qed
qed

lemma reg_inv_lookup_found:
  assumes "reg_inv dev f0 s" and "pcs s t = AtLookup" and "windows (engine s) dev = Some p"
  shows "reg_inv dev f0 (s\<lparr>pcs := (pcs s)(t := AtUnlock p)\<rparr>)"
proof -
  from assms(1) have "pc_ok dev f0 (engine s) (mu s) t (pcs s t)"
    by (simp add: reg_inv_def)
  with assms(2) have h: "mu s = Some t" by simp
  let ?s' = "s\<lparr>pcs := (pcs s)(t := AtUnlock p)\<rparr>"
  have th: "pc_ok dev f0 (engine ?s') (mu ?s') u (pcs ?s' u)" for u
  proof (cases "u = t")
    case True
    with h assms(3) show ?thesis by simp
  next
    case False
    from assms(1) have "pc_ok dev f0 (engine s) (mu s) u (pcs s u)"
      by (simp add: reg_inv_def)
    with False show ?thesis by simp
  qed
  from assms(1) have g2: "\<forall>p. windows (engine s) dev = Some p \<longrightarrow> p = f0 \<and> fresh (engine s) = Suc f0"
    by (simp add: reg_inv_def)
  show ?thesis
    unfolding reg_inv_def
  proof (intro conjI)
    show "\<forall>u. pc_ok dev f0 (engine ?s') (mu ?s') u (pcs ?s' u)" using th by blast
    show "windows (engine ?s') dev = None \<longrightarrow>
            fresh (engine ?s') = f0 \<or> (\<exists>u. pcs ?s' u = AtInsert f0)"
      using assms(3) by simp
    show "\<forall>p. windows (engine ?s') dev = Some p \<longrightarrow> p = f0 \<and> fresh (engine ?s') = Suc f0"
      using g2 by simp
  qed
qed

lemma reg_inv_lookup_missing:
  assumes "reg_inv dev f0 s" and "pcs s t = AtLookup" and "windows (engine s) dev = None"
  shows "reg_inv dev f0 (s\<lparr>pcs := (pcs s)(t := AtCreate)\<rparr>)"
proof -
  from assms(1) have "pc_ok dev f0 (engine s) (mu s) t (pcs s t)"
    by (simp add: reg_inv_def)
  with assms(2) have h: "mu s = Some t" by simp
  have noins: "pcs s u \<noteq> AtInsert q" for u q
  proof (cases "u = t")
    case True
    with assms(2) show ?thesis by simp
  next
    case False
    from others_outside [OF assms(1) h False] show ?thesis by auto
  qed
  from assms(1,3) noins have f: "fresh (engine s) = f0"
    by (auto simp: reg_inv_def)
  let ?s' = "s\<lparr>pcs := (pcs s)(t := AtCreate)\<rparr>"
  have th: "pc_ok dev f0 (engine ?s') (mu ?s') u (pcs ?s' u)" for u
  proof (cases "u = t")
    case True
    with h assms(3) f show ?thesis by simp
  next
    case False
    from assms(1) have "pc_ok dev f0 (engine s) (mu s) u (pcs s u)"
      by (simp add: reg_inv_def)
    with False show ?thesis by simp
  qed
  show ?thesis
    unfolding reg_inv_def
  proof (intro conjI)
    show "\<forall>u. pc_ok dev f0 (engine ?s') (mu ?s') u (pcs ?s' u)" using th by blast
    show "windows (engine ?s') dev = None \<longrightarrow>
            fresh (engine ?s') = f0 \<or> (\<exists>u. pcs ?s' u = AtInsert f0)"
      using f by simp
    show "\<forall>p. windows (engine ?s') dev = Some p \<longrightarrow> p = f0 \<and> fresh (engine ?s') = Suc f0"
      using assms(3) by simp
  qed
qed

lemma reg_inv_create:
  assumes "reg_inv dev f0 s" and "pcs s t = AtCreate"
  shows "reg_inv dev f0
       (s\<lparr>engine := (engine s)\<lparr>heap := h, fresh := Suc (fresh (engine s))\<rparr>,
          pcs := (pcs s)(t := AtInsert (fresh (engine s)))\<rparr>)"
proof -
  let ?e = "(engine s)\<lparr>heap := h, fresh := Suc (fresh (engine s))\<rparr>"
  from assms(1) have "pc_ok dev f0 (engine s) (mu s) t (pcs s t)"
    by (simp add: reg_inv_def)
  with assms(2) have h: "mu s = Some t" and w: "windows (engine s) dev = None"
    and f: "fresh (engine s) = f0" by simp_all
  let ?s' = "s\<lparr>engine := ?e, pcs := (pcs s)(t := AtInsert (fresh (engine s)))\<rparr>"
  have th: "pc_ok dev f0 (engine ?s') (mu ?s') u (pcs ?s' u)" for u
  proof (cases "u = t")
    case True
    with h w f show ?thesis by simp
  next
    case False
    from assms(1) have "pc_ok dev f0 (engine s) (mu s) u (pcs s u)"
      by (simp add: reg_inv_def)
    from pc_ok_outside [OF this others_outside [OF assms(1) h False], of ?e "mu s"] False
    show ?thesis by simp
  qed
  have ex: "\<exists>u. pcs ?s' u = AtInsert f0"
    using f by (intro exI [of _ t]) simp
  show ?thesis
    unfolding reg_inv_def
  proof (intro conjI)
    show "\<forall>u. pc_ok dev f0 (engine ?s') (mu ?s') u (pcs ?s' u)" using th by blast
    show "windows (engine ?s') dev = None \<longrightarrow>
            fresh (engine ?s') = f0 \<or> (\<exists>u. pcs ?s' u = AtInsert f0)"
      using ex by blast
    show "\<forall>p. windows (engine ?s') dev = Some p \<longrightarrow> p = f0 \<and> fresh (engine ?s') = Suc f0"
      using w by simp
  qed
qed

lemma reg_inv_insert:
  assumes "reg_inv dev f0 s" and "pcs s t = AtInsert p"
  shows "reg_inv dev f0
       (s\<lparr>engine := (engine s)\<lparr>windows := (windows (engine s))(dev \<mapsto> p)\<rparr>,
          pcs := (pcs s)(t := AtUnlock p)\<rparr>)"
proof -
  let ?e = "(engine s)\<lparr>windows := (windows (engine s))(dev \<mapsto> p)\<rparr>"
  from assms(1) have "pc_ok dev f0 (engine s) (mu s) t (pcs s t)"
    by (simp add: reg_inv_def)
  with assms(2) have h: "mu s = Some t" and w: "windows (engine s) dev = None"
    and p: "p = f0" and f: "fresh (engine s) = Suc f0" by simp_all
  let ?s' = "s\<lparr>engine := ?e, pcs := (pcs s)(t := AtUnlock p)\<rparr>"
  have th: "pc_ok dev f0 (engine ?s') (mu ?s') u (pcs ?s' u)" for u
  proof (cases "u = t")
    case True
    with h show ?thesis by simp
  next
    case False
    from assms(1) have ok: "pc_ok dev f0 (engine s) (mu s) u (pcs s u)"
      by (simp add: reg_inv_def)
    from others_outside [OF assms(1) h False] have out: "\<not> in_section (pcs s u)" .
    from ok out w have "pcs s u = AtLock" by (cases "pcs s u") simp_all
    with False show ?thesis by simp
  qed
  show ?thesis
    unfolding reg_inv_def
  proof (intro conjI)
    show "\<forall>u. pc_ok dev f0 (engine ?s') (mu ?s') u (pcs ?s' u)" using th by blast
    show "windows (engine ?s') dev = None \<longrightarrow>
            fresh (engine ?s') = f0 \<or> (\<exists>u. pcs ?s' u = AtInsert f0)"
      by simp
    show "\<forall>p. windows (engine ?s') dev = Some p \<longrightarrow> p = f0 \<and> fresh (engine ?s') = Suc f0"
      using p f by simp
  qed
qed

lemma reg_inv_unlock:
  assumes "reg_inv dev f0 s" and "pcs s t = AtUnlock p"
  shows "reg_inv dev f0 (s\<lparr>mu := None, pcs := (pcs s)(t := Returned p)\<rparr>)"
proof -
  from assms(1) have "pc_ok dev f0 (engine s) (mu s) t (pcs s t)"
    by (simp add: reg_inv_def)
  with assms(2) have h: "mu s = Some t" and w: "windows (engine s) dev = Some p"
    by simp_all
  let ?s' = "s\<lparr>mu := None, pcs := (pcs s)(t := Returned p)\<rparr>"
  have th: "pc_ok dev f0 (engine ?s') (mu ?s') u (pcs ?s' u)" for u
  proof (cases "u = t")
    case True
    with w show ?thesis by simp
  next
    case False
    from assms(1) have "pc_ok dev f0 (engine s) (mu s) u (pcs s u)"
      by (simp add: reg_inv_def)
    from pc_ok_outside [OF this others_outside [OF assms(1) h False], of "engine s" None] False
    show ?thesis by simp
  qed
  from assms(1) have g2: "\<forall>p. windows (engine s) dev = Some p \<longrightarrow> p = f0 \<and> fresh (engine s) = Suc f0"
    by (simp add: reg_inv_def)
  show ?thesis
    unfolding reg_inv_def
  proof (intro conjI)
    show "\<forall>u. pc_ok dev f0 (engine ?s') (mu ?s') u (pcs ?s' u)" using th by blast
    show "windows (engine ?s') dev = None \<longrightarrow>
            fresh (engine ?s') = f0 \<or> (\<exists>u. pcs ?s' u = AtInsert f0)"
      using w by simp
    show "\<forall>p. windows (engine ?s') dev = Some p \<longrightarrow> p = f0 \<and> fresh (engine ?s') = Suc f0"
      using g2 by simp
  qed
qed

lemma reg_inv_step:
  assumes "reg_step dev s s'" and "reg_inv dev f0 s"
  shows "reg_inv dev f0 s'"
  using assms
proof (induction rule: reg_step.induct)
  case (lock s t)
  then show ?case by (intro reg_inv_lock)
next
  case (lookup_found s t p)
  then show ?case by (intro reg_inv_lookup_found)
next
  case (lookup_missing s t)
  then show ?case by (intro reg_inv_lookup_missing)
next
  case (create s t cpus rpss tss)
  then show ?case by (intro reg_inv_create)
next
  case (insert s t p)
  then show ?case by (intro reg_inv_insert)
next
  case (unlock s t p)
  then show ?case by (intro reg_inv_unlock)
qed

lemma reg_inv_reachable:
  assumes "(reg_step dev)\<^sup>*\<^sup>* s s'" and "reg_inv dev f0 s"
  shows "reg_inv dev f0 s'"
  using assms by (induction rule: rtranclp_induct) (auto intro: reg_inv_step)

text \<open>A worker that runs the section without interruption does what
  \<open>getOrCreate\<close> computes.\<close>

lemma section_alone:
  assumes "getOrCreate (engine s) dev = Inr (p, a')" and "mu s = None" and "pcs s t = AtLock"
  shows "(reg_step dev)\<^sup>*\<^sup>* s (s\<lparr>engine := a', pcs := (pcs s)(t := Returned p)\<rparr>)"
proof (cases "windows (engine s) dev")
  case (Some q)
  with assms(1) have pq: "q = p" and a': "a' = engine s"
    by (simp_all add: getOrCreate_cases)
  let ?s1 = "s\<lparr>mu := Some t, pcs := (pcs s)(t := AtLookup)\<rparr>"
  let ?s2 = "?s1\<lparr>pcs := (pcs ?s1)(t := AtUnlock p)\<rparr>"
  let ?s3 = "?s2\<lparr>mu := None, pcs := (pcs ?s2)(t := Returned p)\<rparr>"
  have 1: "reg_step dev s ?s1" by (rule lock [OF assms(3) assms(2)])
  have 2: "reg_step dev ?s1 ?s2" by (rule lookup_found) (simp_all add: Some pq)
  have 3: "reg_step dev ?s2 ?s3" by (rule unlock) simp
  have "?s3 = s\<lparr>engine := a', pcs := (pcs s)(t := Returned p)\<rparr>"
    using assms(2) by (simp add: a')
  with 1 2 3 show ?thesis
    by (metis (no_types, lifting) converse_rtranclp_into_rtranclp r_into_rtranclp)
next
  case None
  with assms(1) have ws: "window_size_ok (windowSize (engine s))" and p: "p = fresh (engine s)"
    and a': "a' = (engine s)\<lparr>heap := (heap (engine s))(fresh (engine s) :=
                         \<lparr>cpuValues = [], rpsValues = [], timestamps = [],
                          maxSize = windowSize (engine s)\<rparr>),
                      fresh := Suc (fresh (engine s)),
                      windows := (windows (engine s))(dev \<mapsto> fresh (engine s))\<rparr>"
    by (auto simp: getOrCreate_cases split: if_splits)
  let ?s1 = "s\<lparr>mu := Some t, pcs := (pcs s)(t := AtLookup)\<rparr>"
  let ?s2 = "?s1\<lparr>pcs := (pcs ?s1)(t := AtCreate)\<rparr>"
  let ?s3 = "?s2\<lparr>engine := (engine ?s2)\<lparr>heap := (heap (engine ?s2))(fresh (engine ?s2) :=
                         \<lparr>cpuValues = [], rpsValues = [], timestamps = [],
                          maxSize = windowSize (engine ?s2)\<rparr>),
                      fresh := Suc (fresh (engine ?s2))\<rparr>,
          pcs := (pcs ?s2)(t := AtInsert (fresh (engine ?s2)))\<rparr>"
  let ?s4 = "?s3\<lparr>engine := (engine ?s3)\<lparr>windows := (windows (engine ?s3))(dev \<mapsto> p)\<rparr>,
          pcs := (pcs ?s3)(t := AtUnlock p)\<rparr>"
  let ?s5 = "?s4\<lparr>mu := None, pcs := (pcs ?s4)(t := Returned p)\<rparr>"
  have 1: "reg_step dev s ?s1" by (rule lock [OF assms(3) assms(2)])
  have 2: "reg_step dev ?s1 ?s2" by (rule lookup_missing) (simp_all add: None)
  have 3: "reg_step dev ?s2 ?s3"
    using ws by (intro create) (simp_all add: make_slice_def window_size_ok_def not_less)
  have 4: "reg_step dev ?s3 ?s4" by (rule insert) (simp add: p)
  have 5: "reg_step dev ?s4 ?s5" by (rule unlock) simp
  have "?s5 = s\<lparr>engine := a', pcs := (pcs s)(t := Returned p)\<rparr>"
    using assms(2) by (simp add: a' p)
  with 1 2 3 4 5 show ?thesis
    by (metis (no_types, lifting) converse_rtranclp_into_rtranclp r_into_rtranclp)
qed

text \<open>
  Claim C8. Workers that run the registry section of \<open>analyze\<close> at the same time for one
  device that has no window yet create one window between them, whatever the
  interleaving of their statements: never two workers are inside the section, the
  address counter moves by at most one, and every worker that has left the section
  holds the same window, the one the registry maps the device to.
\<close>

theorem C8_one_window_per_device:
  assumes "windows a dev = None"
    and "(reg_step dev)\<^sup>*\<^sup>* (reg_init a) s"
  shows "(\<forall>t u. in_section (pcs s t) \<and> in_section (pcs s u) \<longrightarrow> t = u) \<and>
         fresh (engine s) \<le> Suc (fresh a) \<and>
         (\<forall>t p. pcs s t = Returned p \<longrightarrow>
            p = fresh a \<and> windows (engine s) dev = Some p \<and>
            fresh (engine s) = Suc (fresh a)) \<and>
         (\<forall>t u p q. pcs s t = Returned p \<and> pcs s u = Returned q \<longrightarrow> p = q)"
proof -
  from reg_inv_reachable [OF assms(2) reg_inv_init [OF assms(1)]]
  have inv: "reg_inv dev (fresh a) s" .
  then have ok: "pc_ok dev (fresh a) (engine s) (mu s) t (pcs s t)" for t
    by (simp add: reg_inv_def)
  from inv have g1: "windows (engine s) dev = None \<Longrightarrow>
        fresh (engine s) = fresh a \<or> (\<exists>t. pcs s t = AtInsert (fresh a))"
    and g2: "\<And>p. windows (engine s) dev = Some p \<Longrightarrow>
        p = fresh a \<and> fresh (engine s) = Suc (fresh a)"
    by (simp_all add: reg_inv_def)
  have excl: "\<forall>t u. in_section (pcs s t) \<and> in_section (pcs s u) \<longrightarrow> t = u"
  proof (intro allI impI)
    fix t u
    assume "in_section (pcs s t) \<and> in_section (pcs s u)"
    with pc_ok_holder [OF ok [of t]] pc_ok_holder [OF ok [of u]]
    have "mu s = Some t" "mu s = Some u" by simp_all
    then show "t = u" by simp
  qed
  have cnt: "fresh (engine s) \<le> Suc (fresh a)"
  proof (cases "windows (engine s) dev")
    case None
    from g1 [OF None] show ?thesis
    proof
      assume "fresh (engine s) = fresh a"
      then show ?thesis by simp
    next
      assume "\<exists>t. pcs s t = AtInsert (fresh a)"
      then obtain t where "pcs s t = AtInsert (fresh a)" ..
      with ok [of t] show ?thesis by simp
    qed
  next
    case (Some p)
    from g2 [OF Some] show ?thesis by simp
  qed
  have ret: "\<forall>t p. pcs s t = Returned p \<longrightarrow>
            p = fresh a \<and> windows (engine s) dev = Some p \<and>
            fresh (engine s) = Suc (fresh a)"
  proof (intro allI impI)
    fix t p
    assume "pcs s t = Returned p"
    with ok [of t] have w: "windows (engine s) dev = Some p" by simp
    with g2 [OF w] show "p = fresh a \<and> windows (engine s) dev = Some p \<and>
            fresh (engine s) = Suc (fresh a)" by simp
  qed
  from ret have same: "\<forall>t u p q. pcs s t = Returned p \<and> pcs s u = Returned q \<longrightarrow> p = q"
    by blast
  from excl cnt ret same show ?thesis by blast
qed

text \<open>Two workers, one after the other, on a new engine.\<close>

theorem C8_one_window_per_device_witness:
  "\<exists>s. windows (NewAnalyzer 50 2) ''dev-1'' = None \<and>
       (reg_step ''dev-1'')\<^sup>*\<^sup>* (reg_init (NewAnalyzer 50 2)) s \<and>
       pcs s 0 = Returned 0 \<and> pcs s 1 = Returned 0 \<and>
       windows (engine s) ''dev-1'' = Some 0 \<and>
       fresh (engine s) = Suc (fresh (NewAnalyzer 50 2)) \<and>
       (\<forall>t u. in_section (pcs s t) \<and> in_section (pcs s u) \<longrightarrow> t = u) \<and>
       (\<forall>t u p q. pcs s t = Returned p \<and> pcs s u = Returned q \<longrightarrow> p = q)"
proof -
  let ?a = "NewAnalyzer 50 2"
  let ?s0 = "reg_init ?a"
  have none: "windows ?a ''dev-1'' = None" by (simp add: NewAnalyzer_def)
  obtain a' where g: "getOrCreate (engine ?s0) ''dev-1'' = Inr (0, a')"
    and wa': "windows a' ''dev-1'' = Some 0"
    by (simp add: getOrCreate_cases reg_init_def NewAnalyzer_def small_window_sizes)
  let ?s1 = "?s0\<lparr>engine := a', pcs := (pcs ?s0)(0 := Returned 0)\<rparr>"
  have r1: "(reg_step ''dev-1'')\<^sup>*\<^sup>* ?s0 ?s1"
    by (rule section_alone [OF g]) (simp_all add: reg_init_def)
  have g2: "getOrCreate (engine ?s1) ''dev-1'' = Inr (0, a')"
    using wa' by (simp add: getOrCreate_cases)
  let ?s2 = "?s1\<lparr>engine := a', pcs := (pcs ?s1)(1 := Returned 0)\<rparr>"
  have r2: "(reg_step ''dev-1'')\<^sup>*\<^sup>* ?s1 ?s2"
    by (rule section_alone [OF g2]) (simp_all add: reg_init_def)
  from r1 r2 have reach: "(reg_step ''dev-1'')\<^sup>*\<^sup>* ?s0 ?s2" by (rule rtranclp_trans)
  have p0: "pcs ?s2 0 = Returned 0" and p1: "pcs ?s2 1 = Returned 0" by simp_all
  from C8_one_window_per_device [OF none reach] p0 p1
  have "windows (engine ?s2) ''dev-1'' = Some 0 \<and>
       fresh (engine ?s2) = Suc (fresh ?a) \<and>
       (\<forall>t u. in_section (pcs ?s2 t) \<and> in_section (pcs ?s2 u) \<longrightarrow> t = u) \<and>
       (\<forall>t u p q. pcs ?s2 t = Returned p \<and> pcs ?s2 u = Returned q \<longrightarrow> p = q)"
    by blast
  with none reach p0 p1 show ?thesis by blast
qed

end
